theory Spec2Isabelle
  imports Main "HOL-Library.Signed_Division"
begin

section \<open>C fragments shared by both queue programs\<close>

text \<open>
  Two programs implement the bounded producer/consumer buffer:
  \<^verbatim>\<open>concepts/03_condition_variables/03_producer_consumer.c\<close> (a pthread mutex and two
  condition variables; constants and functions prefixed \<open>cv_\<close> below) and
  \<^verbatim>\<open>concepts/04_semaphores/03_producer_consumer.c\<close> (three POSIX semaphores; prefix
  \<open>sem_\<close>). Both files use the same global names, hence the prefixes.

  C \<open>int\<close> values are modelled as \<open>int\<close>. The two undefined behaviours the code could
  run into, an array access outside \<open>buffer\<close> and a signed overflow of \<open>count\<close>, are
  outcomes of the model, so that their absence is a theorem and not an assumption.
  An operation that has to wait (on a condition variable or a semaphore) before it can
  complete has the outcome \<open>Blocks\<close>.
\<close>

datatype fault = OutOfBounds | SignedOverflow

datatype 'a outcome = Blocks | Faults fault | Returns 'a

definition INT_MAX :: int where
  "INT_MAX = 2147483647"

definition INT_MIN :: int where
  "INT_MIN = - 2147483648"

text \<open>\<^verbatim>\<open>#define BUFFER_SIZE 5\<close>, the same in both files.\<close>

definition BUFFER_SIZE :: int where
  "BUFFER_SIZE = 5"

section \<open>The condition-variable program\<close>

text \<open>\<^verbatim>\<open>#define NUM_ITEMS 20\<close>\<close>

definition cv_NUM_ITEMS :: int where
  "cv_NUM_ITEMS = 20"

text \<open>The globals \<open>buffer\<close>, \<open>count\<close>, \<open>in\<close> and \<open>out\<close> (lines 21-24).\<close>

record cv_state =
  cv_buffer :: "int list"
  cv_count :: int
  cv_in :: int
  cv_out :: int

text \<open>
  The static initialisers of lines 21-24:
  \<^verbatim>\<open>int buffer[BUFFER_SIZE]; int count = 0; int in = 0; int out = 0;\<close>
  (an object of static storage duration without initialiser is zeroed).
\<close>

definition cv_init :: cv_state where
  "cv_init = \<lparr>cv_buffer = replicate (nat BUFFER_SIZE) 0, cv_count = 0, cv_in = 0, cv_out = 0\<rparr>"

text \<open>
  The wait loop of the producer (lines 38-41),
  \<^verbatim>\<open>while (count == BUFFER_SIZE) pthread_cond_wait(&not_full, &mutex);\<close>
  \<open>pthread_cond_wait\<close> releases the mutex, so other threads run, and returns with the
  mutex held again, after a signal or spuriously. The first argument is the state the
  thread finds when it first holds the mutex; the list holds the states it finds at each
  later return from \<open>pthread_cond_wait\<close>, in order. The result is the state at which
  the loop is left, or \<open>None\<close> when the thread is still waiting at the end of the list.
\<close>

fun cv_wait_not_full :: "cv_state \<Rightarrow> cv_state list \<Rightarrow> cv_state option" where
  "cv_wait_not_full s [] = (if cv_count s = BUFFER_SIZE then None else Some s)"
| "cv_wait_not_full s (s' # wakes) =
     (if cv_count s = BUFFER_SIZE then cv_wait_not_full s' wakes else Some s)"

text \<open>
  Lines 43-45, executed with the mutex held:
  \<^verbatim>\<open>buffer[in] = item; in = (in + 1) % BUFFER_SIZE; count++;\<close>
  C's \<open>%\<close> truncates towards zero (\<open>smod\<close>). With \<open>in\<close> inside the array, \<open>in + 1\<close>
  cannot overflow.
\<close>

definition cv_put :: "cv_state \<Rightarrow> int \<Rightarrow> cv_state outcome" where
  "cv_put s item =
     (if \<not> (0 \<le> cv_in s \<and> cv_in s < int (length (cv_buffer s))) then Faults OutOfBounds
      else if cv_count s = INT_MAX then Faults SignedOverflow
      else Returns \<lparr>cv_buffer = (cv_buffer s)[nat (cv_in s) := item],
                    cv_count = cv_count s + 1,
                    cv_in = (cv_in s + 1) smod BUFFER_SIZE,
                    cv_out = cv_out s\<rparr>)"

text \<open>
  One iteration of the producer's loop body between \<open>pthread_mutex_lock\<close> and
  \<open>pthread_mutex_unlock\<close> (lines 36-50): wait until the buffer is not full, then put.
\<close>

definition cv_producer_iter :: "cv_state \<Rightarrow> cv_state list \<Rightarrow> int \<Rightarrow> cv_state outcome" where
  "cv_producer_iter s wakes item =
     (case cv_wait_not_full s wakes of None \<Rightarrow> Blocks | Some s' \<Rightarrow> cv_put s' item)"

text \<open>
  The consumer's wait loop (lines 64-67),
  \<^verbatim>\<open>while (count == 0) pthread_cond_wait(&not_empty, &mutex);\<close>
\<close>

fun cv_wait_not_empty :: "cv_state \<Rightarrow> cv_state list \<Rightarrow> cv_state option" where
  "cv_wait_not_empty s [] = (if cv_count s = 0 then None else Some s)"
| "cv_wait_not_empty s (s' # wakes) =
     (if cv_count s = 0 then cv_wait_not_empty s' wakes else Some s)"

text \<open>
  Lines 69-71: \<^verbatim>\<open>int item = buffer[out]; out = (out + 1) % BUFFER_SIZE; count--;\<close>
  The result is the new state and the item consumed.
\<close>

definition cv_take :: "cv_state \<Rightarrow> (cv_state \<times> int) outcome" where
  "cv_take s =
     (if \<not> (0 \<le> cv_out s \<and> cv_out s < int (length (cv_buffer s))) then Faults OutOfBounds
      else if cv_count s = INT_MIN then Faults SignedOverflow
      else Returns (\<lparr>cv_buffer = cv_buffer s,
                     cv_count = cv_count s - 1,
                     cv_in = cv_in s,
                     cv_out = (cv_out s + 1) smod BUFFER_SIZE\<rparr>,
                    cv_buffer s ! nat (cv_out s)))"

definition cv_consumer_iter :: "cv_state \<Rightarrow> cv_state list \<Rightarrow> (cv_state \<times> int) outcome" where
  "cv_consumer_iter s wakes =
     (case cv_wait_not_empty s wakes of None \<Rightarrow> Blocks | Some s' \<Rightarrow> cv_take s')"

section \<open>The semaphore program\<close>

text \<open>\<^verbatim>\<open>#define NUM_ITEMS 15\<close>\<close>

definition sem_NUM_ITEMS :: int where
  "sem_NUM_ITEMS = 15"

text \<open>
  The globals \<open>buffer\<close>, \<open>in\<close>, \<open>out\<close> and the values of the semaphores \<open>empty\<close>, \<open>full\<close>
  and \<open>mutex\<close> (lines 20-25). This program has no \<open>count\<close> variable: the number of
  occupied slots is the value of \<open>full\<close>.
\<close>

record sem_state =
  sem_buffer :: "int list"
  sem_in :: int
  sem_out :: int
  sem_empty :: nat
  sem_full :: nat
  sem_mutex :: nat

text \<open>
  \<open>sem_wait\<close> decrements a positive semaphore and blocks on zero (\<open>None\<close>);
  \<open>sem_post\<close> increments it, and fails with \<open>EOVERFLOW\<close>, leaving the value as it is,
  at \<open>SEM_VALUE_MAX\<close>; the program ignores that return value.
\<close>

definition SEM_VALUE_MAX :: int where
  "SEM_VALUE_MAX = 2147483647"

definition sem_wait :: "nat \<Rightarrow> nat option" where
  "sem_wait v = (if v = 0 then None else Some (v - 1))"

definition sem_post :: "nat \<Rightarrow> nat" where
  "sem_post v = (if int v < SEM_VALUE_MAX then v + 1 else v)"

text \<open>
  The state after the three \<open>sem_init\<close> calls of \<open>main\<close> (lines 76-78) on the zeroed
  globals: \<open>empty = BUFFER_SIZE\<close>, \<open>full = 0\<close>, \<open>mutex = 1\<close>.
\<close>

definition sem_init :: sem_state where
  "sem_init = \<lparr>sem_buffer = replicate (nat BUFFER_SIZE) 0, sem_in = 0, sem_out = 0,
                sem_empty = nat BUFFER_SIZE, sem_full = 0, sem_mutex = 1\<rparr>"

text \<open>
  The six statements of the producer's loop body (lines 33-41),
  \<^verbatim>\<open>sem_wait(&empty); sem_wait(&mutex); buffer[in] = item; in = (in + 1) % BUFFER_SIZE;
  sem_post(&mutex); sem_post(&full);\<close>
  when one thread runs them and no other thread runs in between. This is one schedule
  among those of the program, not a step of it: only the write and the advance are under
  the mutex semaphore, and the statements of other threads can come between any two of
  the six (the statement-by-statement model is \<open>sem_stmt\<close> below). The result is the
  state after the sixth statement. \<open>Blocks\<close> says that the thread does not get that far
  on its own: it waits in \<open>sem_wait(&empty)\<close>, or in \<open>sem_wait(&mutex)\<close> with its permit
  of \<open>empty\<close> already taken.
\<close>

definition sem_producer_iter :: "sem_state \<Rightarrow> int \<Rightarrow> sem_state outcome" where
  "sem_producer_iter s item =
     (case sem_wait (sem_empty s) of
        None \<Rightarrow> Blocks
      | Some e \<Rightarrow>
         (case sem_wait (sem_mutex s) of
            None \<Rightarrow> Blocks
          | Some m \<Rightarrow>
             if \<not> (0 \<le> sem_in s \<and> sem_in s < int (length (sem_buffer s)))
             then Faults OutOfBounds
             else Returns \<lparr>sem_buffer = (sem_buffer s)[nat (sem_in s) := item],
                           sem_in = (sem_in s + 1) smod BUFFER_SIZE,
                           sem_out = sem_out s,
                           sem_empty = e,
                           sem_full = sem_post (sem_full s),
                           sem_mutex = sem_post m\<rparr>))"

text \<open>
  Likewise the six statements of the consumer's loop body (lines 53-61),
  \<^verbatim>\<open>sem_wait(&full); sem_wait(&mutex); int item = buffer[out];
  out = (out + 1) % BUFFER_SIZE; sem_post(&mutex); sem_post(&empty);\<close>
  run by one thread with no other thread in between. \<open>Blocks\<close>: the thread waits in
  \<open>sem_wait(&full)\<close>, or in \<open>sem_wait(&mutex)\<close> with its permit of \<open>full\<close> already
  taken.
\<close>

definition sem_consumer_iter :: "sem_state \<Rightarrow> (sem_state \<times> int) outcome" where
  "sem_consumer_iter s =
     (case sem_wait (sem_full s) of
        None \<Rightarrow> Blocks
      | Some f \<Rightarrow>
         (case sem_wait (sem_mutex s) of
            None \<Rightarrow> Blocks
          | Some m \<Rightarrow>
             if \<not> (0 \<le> sem_out s \<and> sem_out s < int (length (sem_buffer s)))
             then Faults OutOfBounds
             else Returns (\<lparr>sem_buffer = sem_buffer s,
                            sem_in = sem_in s,
                            sem_out = (sem_out s + 1) smod BUFFER_SIZE,
                            sem_empty = sem_post (sem_empty s),
                            sem_full = f,
                            sem_mutex = sem_post m\<rparr>,
                           sem_buffer s ! nat (sem_out s))))"

section \<open>The spurious-wakeup demonstration\<close>

text \<open>
  \<^verbatim>\<open>concepts/03_condition_variables/04_spurious_wakeup.c\<close>: the global \<open>ready\<close> and the
  two waiters. As above, the first argument is the value of \<open>ready\<close> found when the mutex
  is first held, the list holds the values found at each return from
  \<open>pthread_cond_wait\<close>, and the result is the value of \<open>ready\<close> with which the waiter
  goes on to process (\<open>None\<close>: still waiting).

  \<open>waiter_correct\<close> (lines 45-49): \<^verbatim>\<open>while (!ready) pthread_cond_wait(&cond, &mutex);\<close>
\<close>

fun waiter_correct :: "int \<Rightarrow> int list \<Rightarrow> int option" where
  "waiter_correct ready [] = (if ready = 0 then None else Some ready)"
| "waiter_correct ready (r # wakes) =
     (if ready = 0 then waiter_correct r wakes else Some ready)"

text \<open>\<open>waiter_wrong\<close> (lines 26-30): \<^verbatim>\<open>if (!ready) pthread_cond_wait(&cond, &mutex);\<close>\<close>

fun waiter_wrong :: "int \<Rightarrow> int list \<Rightarrow> int option" where
  "waiter_wrong ready [] = (if ready = 0 then None else Some ready)"
| "waiter_wrong ready (r # wakes) = (if ready = 0 then Some r else Some ready)"

section \<open>Sequences of completed operations\<close>

text \<open>
  The states of the condition-variable program that completed puts and takes reach from
  the initial one. A put or take completes from the state in which its wait loop is left.
\<close>

inductive cv_reachable :: "cv_state \<Rightarrow> bool" where
  cv_reach_init: "cv_reachable cv_init"
| cv_reach_put: "cv_reachable s \<Longrightarrow> cv_producer_iter s [] item = Returns s' \<Longrightarrow> cv_reachable s'"
| cv_reach_take: "cv_reachable s \<Longrightarrow> cv_consumer_iter s [] = Returns (s', item) \<Longrightarrow> cv_reachable s'"

text \<open>
  The states of the semaphore program between operations when the operations do not
  overlap, each put and take running to completion before the next begins. The states in
  the middle of overlapping operations are those of \<open>sem_interleave\<close> below.
\<close>

inductive sem_reachable :: "sem_state \<Rightarrow> bool" where
  sem_reach_init: "sem_reachable sem_init"
| sem_reach_put: "sem_reachable s \<Longrightarrow> sem_producer_iter s item = Returns s' \<Longrightarrow> sem_reachable s'"
| sem_reach_take: "sem_reachable s \<Longrightarrow> sem_consumer_iter s = Returns (s', item) \<Longrightarrow> sem_reachable s'"

text \<open>
  What a thread asks of the queue, and the history of a run: the current state, the items
  of the puts completed so far and the items returned by the takes completed so far, both
  in order of completion.
\<close>

datatype request = Put int | Take

record cv_trace =
  cv_now :: cv_state
  cv_puts :: "int list"
  cv_takes :: "int list"

definition cv_start :: cv_trace where
  "cv_start = \<lparr>cv_now = cv_init, cv_puts = [], cv_takes = []\<rparr>"

text \<open>
  One thread holds the mutex and attempts its operation: it completes, or it finds the
  buffer full (empty) and goes to wait, leaving everything as it was.
\<close>

fun cv_attempt :: "cv_trace \<Rightarrow> request \<Rightarrow> cv_trace outcome" where
  "cv_attempt t (Put item) =
     (case cv_producer_iter (cv_now t) [] item of
        Blocks \<Rightarrow> Blocks
      | Faults f \<Rightarrow> Faults f
      | Returns s' \<Rightarrow> Returns (t\<lparr>cv_now := s', cv_puts := cv_puts t @ [item]\<rparr>))"
| "cv_attempt t Take =
     (case cv_consumer_iter (cv_now t) [] of
        Blocks \<Rightarrow> Blocks
      | Faults f \<Rightarrow> Faults f
      | Returns (s', item) \<Rightarrow> Returns (t\<lparr>cv_now := s', cv_takes := cv_takes t @ [item]\<rparr>))"

text \<open>
  An interleaving is the list of attempts in the order in which the threads hold the mutex.
  A blocked attempt changes nothing (the thread attempts again later in the list).
\<close>

fun cv_run :: "request list \<Rightarrow> cv_trace \<Rightarrow> fault + cv_trace" where
  "cv_run [] t = Inr t"
| "cv_run (r # rs) t =
     (case cv_attempt t r of
        Blocks \<Rightarrow> cv_run rs t
      | Faults f \<Rightarrow> Inl f
      | Returns t' \<Rightarrow> cv_run rs t')"

section \<open>State invariants and the abstraction between the programs\<close>

definition cv_inv :: "cv_state \<Rightarrow> bool" where
  "cv_inv s \<longleftrightarrow>
     int (length (cv_buffer s)) = BUFFER_SIZE \<and>
     0 \<le> cv_count s \<and> cv_count s \<le> BUFFER_SIZE \<and>
     0 \<le> cv_in s \<and> cv_in s < BUFFER_SIZE \<and>
     0 \<le> cv_out s \<and> cv_out s < BUFFER_SIZE \<and>
     cv_in s = (cv_out s + cv_count s) mod BUFFER_SIZE"

definition sem_inv :: "sem_state \<Rightarrow> bool" where
  "sem_inv s \<longleftrightarrow>
     int (length (sem_buffer s)) = BUFFER_SIZE \<and>
     0 \<le> sem_in s \<and> sem_in s < BUFFER_SIZE \<and>
     0 \<le> sem_out s \<and> sem_out s < BUFFER_SIZE \<and>
     int (sem_empty s) + int (sem_full s) = BUFFER_SIZE \<and>
     sem_mutex s = 1 \<and>
     sem_in s = (sem_out s + int (sem_full s)) mod BUFFER_SIZE"

text \<open>The items in the buffer, oldest first: \<open>count\<close> slots from \<open>out\<close>, cyclically.\<close>

definition ring :: "int list \<Rightarrow> int \<Rightarrow> int \<Rightarrow> int list" where
  "ring b start n = map (\<lambda>k. b ! nat ((start + int k) mod BUFFER_SIZE)) [0..<nat n]"

definition cv_contents :: "cv_state \<Rightarrow> int list" where
  "cv_contents s = ring (cv_buffer s) (cv_out s) (cv_count s)"

text \<open>
  A state of the semaphore program seen as a state of the condition-variable program:
  same buffer and cursors, and \<open>count\<close> is the value of \<open>full\<close>.
\<close>

definition sem_abs :: "sem_state \<Rightarrow> cv_state" where
  "sem_abs s = \<lparr>cv_buffer = sem_buffer s, cv_count = int (sem_full s),
                 cv_in = sem_in s, cv_out = sem_out s\<rparr>"

section \<open>The four threads of the semaphore program\<close>

text \<open>
  \<open>main\<close> (lines 80-83) creates two producers and two consumers, with ids 1 and 2.
\<close>

datatype thread = Prod1 | Prod2 | Cons1 | Cons2

definition sem_threads :: "thread list" where
  "sem_threads = [Prod1, Prod2, Cons1, Cons2]"

fun thread_id :: "thread \<Rightarrow> int" where
  "thread_id Prod1 = 1"
| "thread_id Prod2 = 2"
| "thread_id Cons1 = 1"
| "thread_id Cons2 = 2"

fun is_producer :: "thread \<Rightarrow> bool" where
  "is_producer Prod1 = True"
| "is_producer Prod2 = True"
| "is_producer Cons1 = False"
| "is_producer Cons2 = False"

text \<open>
  The threads run concurrently, so the program is modelled statement by statement. Each
  thread is at one of the six statements of its loop body that touch shared state:

  \<^item> \<open>WaitSlot\<close>: the loop test \<^verbatim>\<open>i < NUM_ITEMS / 2\<close>, for the producer
    \<^verbatim>\<open>item = id * 100 + i\<close>, then \<^verbatim>\<open>sem_wait(&empty)\<close> (producer, line 33) or
    \<^verbatim>\<open>sem_wait(&full)\<close> (consumer, line 53);
  \<^item> \<open>WaitMutex\<close>: \<^verbatim>\<open>sem_wait(&mutex)\<close> (lines 34, 54);
  \<^item> \<open>Access\<close>: \<^verbatim>\<open>buffer[in] = item\<close> (line 36) or \<^verbatim>\<open>int item = buffer[out]\<close>
    (line 56);
  \<^item> \<open>Advance\<close>: \<^verbatim>\<open>in = (in + 1) % BUFFER_SIZE\<close> (line 38) or the same for \<open>out\<close>
    (line 58);
  \<^item> \<open>PostMutex\<close>: \<^verbatim>\<open>sem_post(&mutex)\<close> (lines 40, 60);
  \<^item> \<open>PostSlot\<close>: \<^verbatim>\<open>sem_post(&full)\<close> (line 41) or \<^verbatim>\<open>sem_post(&empty)\<close> (line 61),
    then \<open>i++\<close>.
\<close>

datatype stmt = WaitSlot | WaitMutex | Access | Advance | PostMutex | PostSlot

text \<open>
  The state of the running program: the shared state; for each thread its loop counter
  \<open>i\<close>, the statement it is at and its local \<open>item\<close>; and the items written into and
  read from the buffer so far, in the order of the accesses.
\<close>

record sem_program =
  prog_shared :: sem_state
  prog_i :: "thread \<Rightarrow> int"
  prog_pc :: "thread \<Rightarrow> stmt"
  prog_item :: "thread \<Rightarrow> int"
  prog_produced :: "int list"
  prog_consumed :: "int list"

definition sem_main_start :: sem_program where
  "sem_main_start = \<lparr>prog_shared = sem_init, prog_i = (\<lambda>th. 0), prog_pc = (\<lambda>th. WaitSlot),
     prog_item = (\<lambda>th. 0), prog_produced = [], prog_consumed = []\<rparr>"

text \<open>A thread has returned when it is at the loop test and the test fails.\<close>

definition returned :: "sem_program \<Rightarrow> thread \<Rightarrow> bool" where
  "returned p th \<longleftrightarrow> prog_pc p th = WaitSlot \<and> \<not> (prog_i p th < sem_NUM_ITEMS sdiv 2)"

text \<open>
  One statement of one thread. C's \<open>/\<close> and \<open>%\<close> on \<open>int\<close> truncate (\<open>sdiv\<close>,
  \<open>smod\<close>).
\<close>

definition sem_stmt :: "thread \<Rightarrow> sem_program \<Rightarrow> sem_program outcome" where
  "sem_stmt th p =
     (let s = prog_shared p; i = prog_i p th in
      case prog_pc p th of
        WaitSlot \<Rightarrow>
          (if is_producer th then
             (case sem_wait (sem_empty s) of
                None \<Rightarrow> Blocks
              | Some e \<Rightarrow>
                  Returns (p\<lparr>prog_shared := s\<lparr>sem_empty := e\<rparr>,
                             prog_item := (prog_item p)(th := thread_id th * 100 + i),
                             prog_pc := (prog_pc p)(th := WaitMutex)\<rparr>))
           else
             (case sem_wait (sem_full s) of
                None \<Rightarrow> Blocks
              | Some f \<Rightarrow>
                  Returns (p\<lparr>prog_shared := s\<lparr>sem_full := f\<rparr>,
                             prog_pc := (prog_pc p)(th := WaitMutex)\<rparr>)))
      | WaitMutex \<Rightarrow>
          (case sem_wait (sem_mutex s) of
             None \<Rightarrow> Blocks
           | Some m \<Rightarrow>
               Returns (p\<lparr>prog_shared := s\<lparr>sem_mutex := m\<rparr>,
                          prog_pc := (prog_pc p)(th := Access)\<rparr>))
      | Access \<Rightarrow>
          (if is_producer th then
             (if \<not> (0 \<le> sem_in s \<and> sem_in s < int (length (sem_buffer s)))
              then Faults OutOfBounds
              else Returns (p\<lparr>prog_shared :=
                                 s\<lparr>sem_buffer := (sem_buffer s)[nat (sem_in s) := prog_item p th]\<rparr>,
                               prog_produced := prog_produced p @ [prog_item p th],
                               prog_pc := (prog_pc p)(th := Advance)\<rparr>))
           else
             (if \<not> (0 \<le> sem_out s \<and> sem_out s < int (length (sem_buffer s)))
              then Faults OutOfBounds
              else Returns (p\<lparr>prog_item := (prog_item p)(th := sem_buffer s ! nat (sem_out s)),
                               prog_consumed := prog_consumed p @ [sem_buffer s ! nat (sem_out s)],
                               prog_pc := (prog_pc p)(th := Advance)\<rparr>)))
      | Advance \<Rightarrow>
          (if is_producer th then
             (if sem_in s = INT_MAX then Faults SignedOverflow
              else Returns (p\<lparr>prog_shared := s\<lparr>sem_in := (sem_in s + 1) smod BUFFER_SIZE\<rparr>,
                               prog_pc := (prog_pc p)(th := PostMutex)\<rparr>))
           else
             (if sem_out s = INT_MAX then Faults SignedOverflow
              else Returns (p\<lparr>prog_shared := s\<lparr>sem_out := (sem_out s + 1) smod BUFFER_SIZE\<rparr>,
                               prog_pc := (prog_pc p)(th := PostMutex)\<rparr>)))
      | PostMutex \<Rightarrow>
          Returns (p\<lparr>prog_shared := s\<lparr>sem_mutex := sem_post (sem_mutex s)\<rparr>,
                     prog_pc := (prog_pc p)(th := PostSlot)\<rparr>)
      | PostSlot \<Rightarrow>
          (if is_producer th then
             Returns (p\<lparr>prog_shared := s\<lparr>sem_full := sem_post (sem_full s)\<rparr>,
                        prog_i := (prog_i p)(th := i + 1),
                        prog_pc := (prog_pc p)(th := WaitSlot)\<rparr>)
           else
             Returns (p\<lparr>prog_shared := s\<lparr>sem_empty := sem_post (sem_empty s)\<rparr>,
                        prog_i := (prog_i p)(th := i + 1),
                        prog_pc := (prog_pc p)(th := WaitSlot)\<rparr>)))"

text \<open>
  An interleaving is the order in which the threads are given the processor, one statement
  at a time. A thread that has returned, or that is blocked in \<open>sem_wait\<close>, does nothing
  when its turn comes.
\<close>

fun sem_interleave :: "thread list \<Rightarrow> sem_program \<Rightarrow> fault + sem_program" where
  "sem_interleave [] p = Inr p"
| "sem_interleave (th # ths) p =
     (if returned p th then sem_interleave ths p
      else (case sem_stmt th p of
              Blocks \<Rightarrow> sem_interleave ths p
            | Faults f \<Rightarrow> Inl f
            | Returns p' \<Rightarrow> sem_interleave ths p'))"

text \<open>No thread can go on: each has returned or is blocked.\<close>

definition sem_halted :: "sem_program \<Rightarrow> bool" where
  "sem_halted p \<longleftrightarrow>
     list_all (\<lambda>th. returned p th \<or>
                 (case sem_stmt th p of
                    Blocks \<Rightarrow> True | Faults f \<Rightarrow> False | Returns p' \<Rightarrow> False))
       sem_threads"

text \<open>
  For the invariant: whether a thread at a given statement has, in its current iteration,
  passed the \<open>sem_wait\<close> on its slot semaphore; accessed the buffer; holds the mutex; has
  accessed the buffer but not yet advanced its cursor.
\<close>

fun acquired :: "stmt \<Rightarrow> int" where
  "acquired WaitSlot = 0"
| "acquired WaitMutex = 1"
| "acquired Access = 1"
| "acquired Advance = 1"
| "acquired PostMutex = 1"
| "acquired PostSlot = 1"

fun accessed :: "stmt \<Rightarrow> int" where
  "accessed WaitSlot = 0"
| "accessed WaitMutex = 0"
| "accessed Access = 0"
| "accessed Advance = 1"
| "accessed PostMutex = 1"
| "accessed PostSlot = 1"

fun in_critical :: "stmt \<Rightarrow> int" where
  "in_critical WaitSlot = 0"
| "in_critical WaitMutex = 0"
| "in_critical Access = 1"
| "in_critical Advance = 1"
| "in_critical PostMutex = 1"
| "in_critical PostSlot = 0"

fun advancing :: "stmt \<Rightarrow> int" where
  "advancing WaitSlot = 0"
| "advancing WaitMutex = 0"
| "advancing Access = 0"
| "advancing Advance = 1"
| "advancing PostMutex = 0"
| "advancing PostSlot = 0"

text \<open>The number of writes into and reads from the buffer so far.\<close>

definition writes_done :: "sem_program \<Rightarrow> int" where
  "writes_done p = prog_i p Prod1 + accessed (prog_pc p Prod1)
                 + prog_i p Prod2 + accessed (prog_pc p Prod2)"

definition reads_done :: "sem_program \<Rightarrow> int" where
  "reads_done p = prog_i p Cons1 + accessed (prog_pc p Cons1)
                + prog_i p Cons2 + accessed (prog_pc p Cons2)"

text \<open>
  The invariant of the running program. Every loop counter is between 0 and
  \<open>NUM_ITEMS / 2\<close>, and below it inside the loop body; the mutex is held by at most one
  thread; \<open>empty\<close> and \<open>full\<close> hold the permits not taken; each cursor is the number of
  accesses whose advance is done, modulo \<open>BUFFER_SIZE\<close>; the logs record the accesses.
\<close>

definition counter_ok :: "sem_program \<Rightarrow> thread \<Rightarrow> bool" where
  "counter_ok p th \<longleftrightarrow>
     0 \<le> prog_i p th \<and> prog_i p th \<le> sem_NUM_ITEMS sdiv 2 \<and>
     (prog_pc p th \<noteq> WaitSlot \<longrightarrow> prog_i p th < sem_NUM_ITEMS sdiv 2)"

definition prog_inv :: "sem_program \<Rightarrow> bool" where
  "prog_inv p \<longleftrightarrow>
     int (length (sem_buffer (prog_shared p))) = BUFFER_SIZE \<and>
     counter_ok p Prod1 \<and> counter_ok p Prod2 \<and> counter_ok p Cons1 \<and> counter_ok p Cons2 \<and>
     int (sem_mutex (prog_shared p))
       + in_critical (prog_pc p Prod1) + in_critical (prog_pc p Prod2)
       + in_critical (prog_pc p Cons1) + in_critical (prog_pc p Cons2) = 1 \<and>
     int (sem_empty (prog_shared p))
       + prog_i p Prod1 + acquired (prog_pc p Prod1)
       + prog_i p Prod2 + acquired (prog_pc p Prod2)
       = BUFFER_SIZE + prog_i p Cons1 + prog_i p Cons2 \<and>
     int (sem_full (prog_shared p))
       + prog_i p Cons1 + acquired (prog_pc p Cons1)
       + prog_i p Cons2 + acquired (prog_pc p Cons2)
       = prog_i p Prod1 + prog_i p Prod2 \<and>
     sem_in (prog_shared p) =
       (writes_done p - advancing (prog_pc p Prod1) - advancing (prog_pc p Prod2)) mod BUFFER_SIZE \<and>
     sem_out (prog_shared p) =
       (reads_done p - advancing (prog_pc p Cons1) - advancing (prog_pc p Cons2)) mod BUFFER_SIZE \<and>
     int (length (prog_produced p)) = writes_done p \<and>
     int (length (prog_consumed p)) = reads_done p"

text \<open>
  The items written and not yet read are those in the buffer, oldest first, starting at the
  slot of the next read.
\<close>

definition prog_fifo :: "sem_program \<Rightarrow> bool" where
  "prog_fifo p \<longleftrightarrow>
     prog_produced p =
       prog_consumed p @
         ring (sem_buffer (prog_shared p)) (int (length (prog_consumed p)))
           (int (length (prog_produced p)) - int (length (prog_consumed p)))"


text \<open>
  A measure of how far the program has run: six statements per iteration of each thread.
\<close>

fun stmt_pos :: "stmt \<Rightarrow> int" where
  "stmt_pos WaitSlot = 0"
| "stmt_pos WaitMutex = 1"
| "stmt_pos Access = 2"
| "stmt_pos Advance = 3"
| "stmt_pos PostMutex = 4"
| "stmt_pos PostSlot = 5"

definition thread_progress :: "sem_program \<Rightarrow> thread \<Rightarrow> int" where
  "thread_progress p th = 6 * prog_i p th + stmt_pos (prog_pc p th)"

definition progress :: "sem_program \<Rightarrow> int" where
  "progress p = thread_progress p Prod1 + thread_progress p Prod2
              + thread_progress p Cons1 + thread_progress p Cons2"

section \<open>Arithmetic of cursors and semaphores\<close>

lemma BUFFER_SIZE_pos: "0 < BUFFER_SIZE"
  by (simp add: BUFFER_SIZE_def)

lemma smod_nonneg: "0 \<le> a \<Longrightarrow> 0 < b \<Longrightarrow> (a::int) smod b = a mod b"
  by (cases "a = 0") (simp_all add: smod_int_alt_def)

lemma advance_mod: "0 \<le> i \<Longrightarrow> (i + 1) smod BUFFER_SIZE = (i + 1) mod BUFFER_SIZE"
  by (rule smod_nonneg) (simp_all add: BUFFER_SIZE_pos)

lemma advance_mod_mod: "((a mod BUFFER_SIZE) + 1) smod BUFFER_SIZE = (a + 1) mod BUFFER_SIZE"
proof -
  have "0 \<le> a mod BUFFER_SIZE"
    using BUFFER_SIZE_pos by simp
  then have "((a mod BUFFER_SIZE) + 1) smod BUFFER_SIZE = ((a mod BUFFER_SIZE) + 1) mod BUFFER_SIZE"
    by (rule advance_mod)
  then show ?thesis
    by (simp add: mod_add_left_eq)
qed

lemma advance_mod_mod': "(1 + (a mod BUFFER_SIZE)) smod BUFFER_SIZE = (1 + a) mod BUFFER_SIZE"
  using advance_mod_mod [of a] by (simp add: add.commute)

lemma sem_wait_Some: "sem_wait v = Some w \<longleftrightarrow> 0 < v \<and> int w = int v - 1"
  by (auto simp: sem_wait_def)

lemma sem_post_small: "int v < SEM_VALUE_MAX \<Longrightarrow> int (sem_post v) = int v + 1"
  by (simp add: sem_post_def)

lemma sem_iterations: "sem_NUM_ITEMS sdiv 2 = 7"
  by (simp add: sem_NUM_ITEMS_def signed_divide_int_def)

section \<open>The initial states\<close>

lemma cv_init_eq:
  "cv_init = \<lparr>cv_buffer = [0, 0, 0, 0, 0], cv_count = 0, cv_in = 0, cv_out = 0\<rparr>"
  by code_simp

lemma sem_init_eq:
  "sem_init = \<lparr>sem_buffer = [0, 0, 0, 0, 0], sem_in = 0, sem_out = 0,
               sem_empty = 5, sem_full = 0, sem_mutex = 1\<rparr>"
  by code_simp


section \<open>The condition-variable program: the invariant of its states\<close>

lemma cv_producer_iter_nil:
  "cv_producer_iter s [] item = (if cv_count s = BUFFER_SIZE then Blocks else cv_put s item)"
  by (simp add: cv_producer_iter_def)

lemma cv_consumer_iter_nil:
  "cv_consumer_iter s [] = (if cv_count s = 0 then Blocks else cv_take s)"
  by (simp add: cv_consumer_iter_def)

lemma cv_put_Returns:
  assumes "cv_inv s" "cv_count s \<noteq> BUFFER_SIZE"
  shows "cv_put s item =
     Returns \<lparr>cv_buffer = (cv_buffer s)[nat (cv_in s) := item], cv_count = cv_count s + 1,
              cv_in = (cv_in s + 1) mod BUFFER_SIZE, cv_out = cv_out s\<rparr>"
proof -
  from assms have "cv_count s \<noteq> INT_MAX"
    by (simp add: cv_inv_def INT_MAX_def BUFFER_SIZE_def)
  with assms show ?thesis
    by (simp add: cv_inv_def cv_put_def advance_mod)
qed

lemma cv_take_Returns:
  assumes "cv_inv s" "cv_count s \<noteq> 0"
  shows "cv_take s =
     Returns (\<lparr>cv_buffer = cv_buffer s, cv_count = cv_count s - 1,
              cv_in = cv_in s, cv_out = (cv_out s + 1) mod BUFFER_SIZE\<rparr>, cv_buffer s ! nat (cv_out s))"
proof -
  from assms have "cv_count s \<noteq> INT_MIN"
    by (simp add: cv_inv_def INT_MIN_def)
  with assms show ?thesis
    by (simp add: cv_inv_def cv_take_def advance_mod)
qed

lemma cv_inv_put:
  assumes "cv_inv s" "cv_count s \<noteq> BUFFER_SIZE"
  shows "cv_inv \<lparr>cv_buffer = (cv_buffer s)[nat (cv_in s) := item], cv_count = cv_count s + 1,
              cv_in = (cv_in s + 1) mod BUFFER_SIZE, cv_out = cv_out s\<rparr>"
proof -
  have "(cv_in s + 1) mod BUFFER_SIZE = (cv_out s + (cv_count s + 1)) mod BUFFER_SIZE"
    using assms(1) by (simp add: cv_inv_def mod_add_left_eq add.assoc [symmetric])
  with assms show ?thesis
    by (simp add: cv_inv_def BUFFER_SIZE_pos)
qed

lemma cv_inv_take:
  assumes "cv_inv s" "cv_count s \<noteq> 0"
  shows "cv_inv \<lparr>cv_buffer = cv_buffer s, cv_count = cv_count s - 1,
              cv_in = cv_in s, cv_out = (cv_out s + 1) mod BUFFER_SIZE\<rparr>"
proof -
  have "((cv_out s + 1) mod BUFFER_SIZE + (cv_count s - 1)) mod BUFFER_SIZE
        = (cv_out s + cv_count s) mod BUFFER_SIZE"
    by (simp add: mod_add_left_eq)
  with assms show ?thesis
    by (simp add: cv_inv_def BUFFER_SIZE_pos)
qed

lemma cv_inv_init: "cv_inv cv_init"
  by (simp add: cv_inv_def cv_init_def BUFFER_SIZE_def)

lemma cv_producer_iter_pres:
  assumes "cv_inv s" "cv_producer_iter s [] item = Returns s'"
  shows "cv_inv s'"
proof -
  from assms have e: "cv_count s \<noteq> BUFFER_SIZE"
    by (auto simp: cv_producer_iter_nil split: if_splits)
  with assms have "s' = \<lparr>cv_buffer = (cv_buffer s)[nat (cv_in s) := item],
      cv_count = cv_count s + 1, cv_in = (cv_in s + 1) mod BUFFER_SIZE, cv_out = cv_out s\<rparr>"
    by (simp add: cv_producer_iter_nil cv_put_Returns)
  with cv_inv_put [OF assms(1) e, of item] show ?thesis
    by simp
qed

lemma cv_consumer_iter_pres:
  assumes "cv_inv s" "cv_consumer_iter s [] = Returns (s', item)"
  shows "cv_inv s'"
proof -
  from assms have e: "cv_count s \<noteq> 0"
    by (auto simp: cv_consumer_iter_nil split: if_splits)
  with assms have "s' = \<lparr>cv_buffer = cv_buffer s, cv_count = cv_count s - 1,
              cv_in = cv_in s, cv_out = (cv_out s + 1) mod BUFFER_SIZE\<rparr>"
    by (simp add: cv_consumer_iter_nil cv_take_Returns)
  with cv_inv_take [OF assms(1) e] show ?thesis
    by simp
qed

lemma cv_reachable_inv: "cv_reachable s \<Longrightarrow> cv_inv s"
proof (induction rule: cv_reachable.induct)
  case cv_reach_init
  show ?case by (rule cv_inv_init)
next
  case (cv_reach_put s item s')
  then show ?case
    by (auto simp: cv_producer_iter_nil cv_put_Returns cv_inv_put split: if_splits)
next
  case (cv_reach_take s s' item)
  then show ?case
    by (auto simp: cv_consumer_iter_nil cv_take_Returns cv_inv_take split: if_splits)
qed

section \<open>The wait loops\<close>

lemma cv_wait_not_full_Some:
  "cv_wait_not_full s wakes = Some s' \<Longrightarrow> s' \<in> set (s # wakes) \<and> cv_count s' \<noteq> BUFFER_SIZE"
  by (induction wakes arbitrary: s) (auto split: if_splits)

lemma cv_wait_not_empty_Some:
  "cv_wait_not_empty s wakes = Some s' \<Longrightarrow> s' \<in> set (s # wakes) \<and> cv_count s' \<noteq> 0"
  by (induction wakes arbitrary: s) (auto split: if_splits)

lemma cv_wait_not_full_None:
  "cv_wait_not_full s wakes = None \<longleftrightarrow> (\<forall>q \<in> set (s # wakes). cv_count q = BUFFER_SIZE)"
  by (induction wakes arbitrary: s) auto

lemma cv_wait_not_empty_None:
  "cv_wait_not_empty s wakes = None \<longleftrightarrow> (\<forall>q \<in> set (s # wakes). cv_count q = 0)"
  by (induction wakes arbitrary: s) auto

lemma waiter_correct_Some: "waiter_correct r rs = Some r' \<Longrightarrow> r' \<noteq> 0"
  by (induction rs arbitrary: r) (auto split: if_splits)

lemma waiter_correct_None:
  "waiter_correct r rs = None \<longleftrightarrow> (\<forall>q \<in> set (r # rs). q = 0)"
  by (induction rs arbitrary: r) auto

text \<open>
  Each wait loop is left at the first state, among the one found on entry and those found
  at the wakes, in which its predicate holds.
\<close>

lemma cv_wait_not_full_find:
  "cv_wait_not_full s wakes = find (\<lambda>q. cv_count q \<noteq> BUFFER_SIZE) (s # wakes)"
  by (induction wakes arbitrary: s) simp_all

lemma cv_wait_not_empty_find:
  "cv_wait_not_empty s wakes = find (\<lambda>q. cv_count q \<noteq> 0) (s # wakes)"
  by (induction wakes arbitrary: s) simp_all

lemma waiter_correct_find:
  "waiter_correct r rs = find (\<lambda>q. q \<noteq> 0) (r # rs)"
  by (induction rs arbitrary: r) simp_all

lemma waiter_wrong_proceeds_unready: "waiter_wrong 0 [0] = Some 0"
  by simp

lemma cv_producer_iter_cases:
  assumes "\<forall>q \<in> set (s # wakes). cv_inv q"
  shows "(cv_producer_iter s wakes item = Blocks \<and>
            (\<forall>q \<in> set (s # wakes). cv_count q = BUFFER_SIZE)) \<or>
         (\<exists>q \<in> set (s # wakes). cv_count q < BUFFER_SIZE \<and>
            cv_producer_iter s wakes item =
              Returns (q\<lparr>cv_buffer := (cv_buffer q)[nat (cv_in q) := item],
                         cv_in := (cv_in q + 1) mod BUFFER_SIZE,
                         cv_count := cv_count q + 1\<rparr>))"
proof (cases "cv_wait_not_full s wakes")
  case None
  then have "\<forall>q \<in> set (s # wakes). cv_count q = BUFFER_SIZE"
    by (simp only: cv_wait_not_full_None)
  with None show ?thesis
    by (simp add: cv_producer_iter_def)
next
  case (Some q)
  then have q: "q \<in> set (s # wakes)" "cv_count q \<noteq> BUFFER_SIZE"
    by (blast dest: cv_wait_not_full_Some)+
  with assms have inv: "cv_inv q"
    by blast
  with q(2) have "cv_count q < BUFFER_SIZE"
    by (simp add: cv_inv_def)
  moreover from Some inv q(2) have "cv_producer_iter s wakes item =
              Returns (q\<lparr>cv_buffer := (cv_buffer q)[nat (cv_in q) := item],
                         cv_in := (cv_in q + 1) mod BUFFER_SIZE,
                         cv_count := cv_count q + 1\<rparr>)"
    by (simp add: cv_producer_iter_def cv_put_Returns)
  ultimately show ?thesis
    using q(1) by blast
qed

lemma cv_consumer_iter_cases:
  assumes "\<forall>q \<in> set (s # wakes). cv_inv q"
  shows "(cv_consumer_iter s wakes = Blocks \<and> (\<forall>q \<in> set (s # wakes). cv_count q = 0)) \<or>
         (\<exists>q \<in> set (s # wakes). 0 < cv_count q \<and>
            cv_consumer_iter s wakes =
              Returns (q\<lparr>cv_out := (cv_out q + 1) mod BUFFER_SIZE, cv_count := cv_count q - 1\<rparr>,
                       cv_buffer q ! nat (cv_out q)))"
proof (cases "cv_wait_not_empty s wakes")
  case None
  then have "\<forall>q \<in> set (s # wakes). cv_count q = 0"
    by (simp only: cv_wait_not_empty_None)
  with None show ?thesis
    by (simp add: cv_consumer_iter_def)
next
  case (Some q)
  then have q: "q \<in> set (s # wakes)" "cv_count q \<noteq> 0"
    by (blast dest: cv_wait_not_empty_Some)+
  with assms have inv: "cv_inv q"
    by blast
  with q(2) have "0 < cv_count q"
    by (simp add: cv_inv_def)
  moreover from Some inv q(2) have "cv_consumer_iter s wakes =
              Returns (q\<lparr>cv_out := (cv_out q + 1) mod BUFFER_SIZE, cv_count := cv_count q - 1\<rparr>,
                       cv_buffer q ! nat (cv_out q))"
    by (simp add: cv_consumer_iter_def cv_take_Returns)
  ultimately show ?thesis
    using q(1) by blast
qed

text \<open>
  A put or take that completes after waiting completes from a state found at a wake, so
  its result is reachable when the states found are.
\<close>

lemma cv_reachable_after_wait:
  assumes "\<forall>q \<in> set (s # wakes). cv_reachable q"
  shows "cv_producer_iter s wakes item = Returns s' \<Longrightarrow> cv_reachable s'"
    and "cv_consumer_iter s wakes = Returns (s', x) \<Longrightarrow> cv_reachable s'"
proof -
  assume r: "cv_producer_iter s wakes item = Returns s'"
  then obtain q where q: "cv_wait_not_full s wakes = Some q"
    by (auto simp: cv_producer_iter_def split: option.splits)
  then have m: "q \<in> set (s # wakes)" "cv_count q \<noteq> BUFFER_SIZE"
    by (blast dest: cv_wait_not_full_Some)+
  with assms have "cv_reachable q"
    by blast
  moreover from r q m(2) have "cv_producer_iter q [] item = Returns s'"
    by (simp add: cv_producer_iter_def)
  ultimately show "cv_reachable s'"
    by (rule cv_reach_put)
next
  assume r: "cv_consumer_iter s wakes = Returns (s', x)"
  then obtain q where q: "cv_wait_not_empty s wakes = Some q"
    by (auto simp: cv_consumer_iter_def split: option.splits)
  then have m: "q \<in> set (s # wakes)" "cv_count q \<noteq> 0"
    by (blast dest: cv_wait_not_empty_Some)+
  with assms have "cv_reachable q"
    by blast
  moreover from r q m(2) have "cv_consumer_iter q [] = Returns (s', x)"
    by (simp add: cv_consumer_iter_def)
  ultimately show "cv_reachable s'"
    by (rule cv_reach_take)
qed

section \<open>The semaphore program: the invariant between completed operations\<close>

lemma sem_producer_iter_inv:
  assumes "sem_inv s"
  shows "sem_producer_iter s item =
     (if sem_empty s = 0 then Blocks
      else Returns \<lparr>sem_buffer = (sem_buffer s)[nat (sem_in s) := item],
                    sem_in = (sem_in s + 1) mod BUFFER_SIZE, sem_out = sem_out s,
                    sem_empty = sem_empty s - 1, sem_full = sem_full s + 1, sem_mutex = 1\<rparr>)"
proof -
  from assms have "int (sem_full s) < SEM_VALUE_MAX"
    by (simp add: sem_inv_def SEM_VALUE_MAX_def BUFFER_SIZE_def)
  with assms show ?thesis
    by (simp add: sem_inv_def sem_producer_iter_def sem_wait_def sem_post_def
        SEM_VALUE_MAX_def advance_mod)
qed

lemma sem_consumer_iter_inv:
  assumes "sem_inv s"
  shows "sem_consumer_iter s =
     (if sem_full s = 0 then Blocks
      else Returns (\<lparr>sem_buffer = sem_buffer s,
                    sem_in = sem_in s, sem_out = (sem_out s + 1) mod BUFFER_SIZE,
                    sem_empty = sem_empty s + 1, sem_full = sem_full s - 1, sem_mutex = 1\<rparr>,
                    sem_buffer s ! nat (sem_out s)))"
proof -
  from assms have "int (sem_empty s) < SEM_VALUE_MAX"
    by (simp add: sem_inv_def SEM_VALUE_MAX_def BUFFER_SIZE_def)
  with assms show ?thesis
    by (simp add: sem_inv_def sem_consumer_iter_def sem_wait_def sem_post_def
        SEM_VALUE_MAX_def advance_mod)
qed

lemma sem_inv_put:
  assumes "sem_inv s" "sem_empty s \<noteq> 0"
  shows "sem_inv \<lparr>sem_buffer = (sem_buffer s)[nat (sem_in s) := item],
                    sem_in = (sem_in s + 1) mod BUFFER_SIZE, sem_out = sem_out s,
                    sem_empty = sem_empty s - 1, sem_full = sem_full s + 1, sem_mutex = 1\<rparr>"
proof -
  have "(sem_in s + 1) mod BUFFER_SIZE = (sem_out s + (int (sem_full s) + 1)) mod BUFFER_SIZE"
    using assms(1) by (simp add: sem_inv_def mod_add_left_eq add.assoc [symmetric])
  with assms show ?thesis
    by (simp add: sem_inv_def BUFFER_SIZE_pos add.commute)
qed

lemma sem_inv_take:
  assumes "sem_inv s" "sem_full s \<noteq> 0"
  shows "sem_inv \<lparr>sem_buffer = sem_buffer s,
                    sem_in = sem_in s, sem_out = (sem_out s + 1) mod BUFFER_SIZE,
                    sem_empty = sem_empty s + 1, sem_full = sem_full s - 1, sem_mutex = 1\<rparr>"
proof -
  have "((sem_out s + 1) mod BUFFER_SIZE + (int (sem_full s) - 1)) mod BUFFER_SIZE
        = (sem_out s + int (sem_full s)) mod BUFFER_SIZE"
    by (simp add: mod_add_left_eq)
  with assms show ?thesis
    by (simp add: sem_inv_def BUFFER_SIZE_pos)
qed

lemma sem_inv_init: "sem_inv sem_init"
  by (simp add: sem_inv_def sem_init_def BUFFER_SIZE_def)

lemma sem_producer_iter_pres:
  assumes "sem_inv s" "sem_producer_iter s item = Returns s'"
  shows "sem_inv s'"
proof -
  from assms have e: "sem_empty s \<noteq> 0"
    by (auto simp: sem_producer_iter_inv split: if_splits)
  with assms have "s' = \<lparr>sem_buffer = (sem_buffer s)[nat (sem_in s) := item],
                    sem_in = (sem_in s + 1) mod BUFFER_SIZE, sem_out = sem_out s,
                    sem_empty = sem_empty s - 1, sem_full = sem_full s + 1, sem_mutex = 1\<rparr>"
    by (simp add: sem_producer_iter_inv)
  with sem_inv_put [OF assms(1) e, of item] show ?thesis
    by simp
qed

lemma sem_consumer_iter_pres:
  assumes "sem_inv s" "sem_consumer_iter s = Returns (s', item)"
  shows "sem_inv s'"
proof -
  from assms have e: "sem_full s \<noteq> 0"
    by (auto simp: sem_consumer_iter_inv split: if_splits)
  with assms have "s' = \<lparr>sem_buffer = sem_buffer s,
                    sem_in = sem_in s, sem_out = (sem_out s + 1) mod BUFFER_SIZE,
                    sem_empty = sem_empty s + 1, sem_full = sem_full s - 1, sem_mutex = 1\<rparr>"
    by (simp add: sem_consumer_iter_inv)
  with sem_inv_take [OF assms(1) e] show ?thesis
    by simp
qed

lemma sem_reachable_inv: "sem_reachable s \<Longrightarrow> sem_inv s"
proof (induction rule: sem_reachable.induct)
  case sem_reach_init
  show ?case by (rule sem_inv_init)
next
  case (sem_reach_put s item s')
  then show ?case
    by (blast intro: sem_producer_iter_pres)
next
  case (sem_reach_take s s' item)
  then show ?case
    by (blast intro: sem_consumer_iter_pres)
qed

section \<open>The buffer as a ring\<close>

lemma ring_slots_distinct:
  assumes "0 \<le> k" "k < c" "c < BUFFER_SIZE"
  shows "(start + k) mod BUFFER_SIZE \<noteq> (start + c) mod BUFFER_SIZE"
proof
  assume "(start + k) mod BUFFER_SIZE = (start + c) mod BUFFER_SIZE"
  then have "(start + c) mod BUFFER_SIZE = (start + k) mod BUFFER_SIZE"
    by simp
  then have "BUFFER_SIZE dvd (start + c) - (start + k)"
    by (simp only: mod_eq_dvd_iff)
  then have "BUFFER_SIZE dvd c - k"
    by simp
  moreover from assms have "0 < c - k" "c - k < BUFFER_SIZE"
    by simp_all
  ultimately show False
    using zdvd_not_zless by blast
qed

lemma ring_put:
  assumes len: "int (length b) = BUFFER_SIZE"
    and c: "0 \<le> c" "c < BUFFER_SIZE"
    and i: "i = (start + c) mod BUFFER_SIZE"
  shows "ring (b[nat i := x]) start (c + 1) = ring b start c @ [x]"
proof -
  have i_bounds: "0 \<le> i" "i < BUFFER_SIZE"
    using i BUFFER_SIZE_pos by simp_all
  have n: "nat (c + 1) = Suc (nat c)"
    using c by simp
  have old: "b[nat i := x] ! nat ((start + int k) mod BUFFER_SIZE)
             = b ! nat ((start + int k) mod BUFFER_SIZE)" if "k < nat c" for k
  proof -
    from that c have "(start + int k) mod BUFFER_SIZE \<noteq> (start + c) mod BUFFER_SIZE"
      by (intro ring_slots_distinct) simp_all
    moreover have "0 \<le> (start + int k) mod BUFFER_SIZE"
      using BUFFER_SIZE_pos by simp
    ultimately have "nat i \<noteq> nat ((start + int k) mod BUFFER_SIZE)"
      using i i_bounds by (simp add: eq_nat_nat_iff BUFFER_SIZE_pos)
    then show ?thesis
      by simp
  qed
  have new: "b[nat i := x] ! nat ((start + c) mod BUFFER_SIZE) = x"
  proof -
    have "nat i < length b"
      using len i_bounds by simp
    moreover have "(start + c) mod BUFFER_SIZE = i"
      using i by simp
    ultimately show ?thesis
      by simp
  qed
  from c show ?thesis
    by (simp add: ring_def n new old)
qed

lemma ring_take:
  assumes s: "0 \<le> start" "start < BUFFER_SIZE" and c: "0 < c"
  shows "ring b start c = b ! nat start # ring b ((start + 1) mod BUFFER_SIZE) (c - 1)"
proof -
  have n: "nat c = Suc (nat (c - 1))"
    using c by simp
  have shift: "((start + 1) mod BUFFER_SIZE + int k) mod BUFFER_SIZE
               = (start + int (Suc k)) mod BUFFER_SIZE" for k
    by (simp add: mod_add_left_eq add.assoc)
  have first: "(start + int 0) mod BUFFER_SIZE = start"
    using s by simp
  have "[0..<nat c] = 0 # map Suc [0..<nat (c - 1)]"
    by (simp only: n upt_conv_Cons [OF zero_less_Suc] map_Suc_upt)
  then have "ring b start c =
      b ! nat ((start + int 0) mod BUFFER_SIZE)
        # map (\<lambda>k. b ! nat ((start + int (Suc k)) mod BUFFER_SIZE)) [0..<nat (c - 1)]"
    by (simp add: ring_def comp_def del: upt_Suc)
  then show ?thesis
    by (simp only: first shift ring_def)
qed

lemma ring_take_any:
  assumes c: "0 < c"
  shows "ring b start c = b ! nat (start mod BUFFER_SIZE) # ring b (start + 1) (c - 1)"
proof -
  have n: "nat c = Suc (nat (c - 1))"
    using c by simp
  have "[0..<nat c] = 0 # map Suc [0..<nat (c - 1)]"
    by (simp only: n upt_conv_Cons [OF zero_less_Suc] map_Suc_upt)
  then have "ring b start c =
      b ! nat ((start + int 0) mod BUFFER_SIZE)
        # map (\<lambda>k. b ! nat ((start + int (Suc k)) mod BUFFER_SIZE)) [0..<nat (c - 1)]"
    by (simp add: ring_def comp_def del: upt_Suc)
  then show ?thesis
    by (simp add: ring_def add.assoc)
qed

lemma prefix_nth:
  assumes "ps = ts @ rest" "n < length ts"
  shows "n < length ps \<and> ts ! n = ps ! n"
  using assms by (simp add: nth_append)

section \<open>FIFO order in the condition-variable program\<close>

lemma cv_contents_put:
  assumes "cv_inv s" "cv_count s \<noteq> BUFFER_SIZE"
  shows "cv_contents \<lparr>cv_buffer = (cv_buffer s)[nat (cv_in s) := item],
      cv_count = cv_count s + 1, cv_in = (cv_in s + 1) mod BUFFER_SIZE, cv_out = cv_out s\<rparr>
    = cv_contents s @ [item]"
proof -
  from assms have "ring ((cv_buffer s)[nat (cv_in s) := item]) (cv_out s) (cv_count s + 1)
      = ring (cv_buffer s) (cv_out s) (cv_count s) @ [item]"
    by (intro ring_put) (simp_all add: cv_inv_def)
  then show ?thesis
    by (simp add: cv_contents_def)
qed

lemma cv_contents_take:
  assumes "cv_inv s" "cv_count s \<noteq> 0"
  shows "cv_contents s = cv_buffer s ! nat (cv_out s) #
     cv_contents \<lparr>cv_buffer = cv_buffer s, cv_count = cv_count s - 1,
              cv_in = cv_in s, cv_out = (cv_out s + 1) mod BUFFER_SIZE\<rparr>"
proof -
  from assms have "ring (cv_buffer s) (cv_out s) (cv_count s)
      = cv_buffer s ! nat (cv_out s)
          # ring (cv_buffer s) ((cv_out s + 1) mod BUFFER_SIZE) (cv_count s - 1)"
    by (intro ring_take) (simp_all add: cv_inv_def)
  then show ?thesis
    by (simp add: cv_contents_def)
qed

lemma cv_attempt_cases:
  assumes "cv_inv (cv_now t)"
  shows "cv_attempt t r = Blocks \<or>
     (\<exists>t'. cv_attempt t r = Returns t' \<and> cv_inv (cv_now t') \<and>
        (cv_puts t = cv_takes t @ cv_contents (cv_now t) \<longrightarrow>
           cv_puts t' = cv_takes t' @ cv_contents (cv_now t')))"
proof (cases r)
  case (Put item)
  show ?thesis
  proof (cases "cv_count (cv_now t) = BUFFER_SIZE")
    case True
    with Put show ?thesis
      by (simp add: cv_producer_iter_nil)
  next
    case False
    with assms Put show ?thesis
      by (simp add: cv_producer_iter_nil cv_put_Returns cv_inv_put cv_contents_put)
  qed
next
  case Take
  show ?thesis
  proof (cases "cv_count (cv_now t) = 0")
    case True
    with Take show ?thesis
      by (simp add: cv_consumer_iter_nil)
  next
    case False
    with assms Take show ?thesis
      by (simp add: cv_consumer_iter_nil cv_take_Returns cv_inv_take
          cv_contents_take [OF assms False])
  qed
qed

lemma cv_run_fifo:
  assumes "cv_inv (cv_now t)" "cv_puts t = cv_takes t @ cv_contents (cv_now t)"
  shows "\<exists>t'. cv_run rs t = Inr t' \<and> cv_inv (cv_now t') \<and>
           cv_puts t' = cv_takes t' @ cv_contents (cv_now t')"
  using assms
proof (induction rs arbitrary: t)
  case Nil
  then show ?case by simp
next
  case (Cons r rs)
  from cv_attempt_cases [OF Cons.prems(1), of r] show ?case
  proof
    assume "cv_attempt t r = Blocks"
    with Cons show ?thesis by simp
  next
    assume "\<exists>t'. cv_attempt t r = Returns t' \<and> cv_inv (cv_now t') \<and>
        (cv_puts t = cv_takes t @ cv_contents (cv_now t) \<longrightarrow>
           cv_puts t' = cv_takes t' @ cv_contents (cv_now t'))"
    then obtain t' where t': "cv_attempt t r = Returns t'" "cv_inv (cv_now t')"
        "cv_puts t' = cv_takes t' @ cv_contents (cv_now t')"
      using Cons.prems(2) by blast
    from Cons.IH [OF t'(2,3)] t'(1) show ?thesis by simp
  qed
qed

lemma cv_start_fifo:
  "cv_inv (cv_now cv_start) \<and> cv_puts cv_start = cv_takes cv_start @ cv_contents (cv_now cv_start)"
proof -
  have "cv_contents cv_init = []"
    by (simp add: cv_contents_def ring_def cv_init_def)
  then show ?thesis
    by (simp add: cv_start_def cv_inv_init)
qed

section \<open>Runs and reachable states\<close>

lemma cv_run_reachable:
  assumes "cv_reachable (cv_now t)" "cv_run rs t = Inr t'"
  shows "cv_reachable (cv_now t')"
  using assms
proof (induction rs arbitrary: t)
  case Nil
  then show ?case by simp
next
  case (Cons r rs)
  show ?case
  proof (cases "cv_attempt t r")
    case Blocks
    with Cons show ?thesis by simp
  next
    case (Faults f)
    with Cons.prems show ?thesis by simp
  next
    case (Returns u)
    have "cv_reachable (cv_now u)"
    proof (cases r)
      case (Put item)
      with Returns have "cv_producer_iter (cv_now t) [] item = Returns (cv_now u)"
        by (auto split: outcome.splits)
      with Cons.prems(1) show ?thesis by (rule cv_reach_put)
    next
      case Take
      with Returns obtain item where "cv_consumer_iter (cv_now t) [] = Returns (cv_now u, item)"
        by (auto split: outcome.splits)
      with Cons.prems(1) show ?thesis by (rule cv_reach_take)
    qed
    with Cons.IH [of u] Cons.prems(2) Returns show ?thesis by simp
  qed
qed

lemma cv_start_reachable: "cv_reachable (cv_now cv_start)"
  by (simp add: cv_start_def cv_reach_init)

lemma cv_full_state:
  "cv_run [Put 1, Put 2, Put 3, Put 4, Put 5, Put 6] cv_start =
     Inr \<lparr>cv_now = \<lparr>cv_buffer = [1, 2, 3, 4, 5], cv_count = 5, cv_in = 0, cv_out = 0\<rparr>,
          cv_puts = [1, 2, 3, 4, 5], cv_takes = []\<rparr>"
  by code_simp

lemma cv_wrap_state:
  "cv_run [Put 1, Put 2, Put 3, Put 4, Take, Take, Take, Take] cv_start =
     Inr \<lparr>cv_now = \<lparr>cv_buffer = [1, 2, 3, 4, 0], cv_count = 0, cv_in = 4, cv_out = 4\<rparr>,
          cv_puts = [1, 2, 3, 4], cv_takes = [1, 2, 3, 4]\<rparr>"
  by code_simp

lemma sem_full_reachable:
  "sem_reachable
     \<lparr>sem_buffer = [1, 2, 3, 4, 5], sem_in = 0, sem_out = 0,
        sem_empty = 0, sem_full = 5, sem_mutex = 1\<rparr>"
proof -
  have "sem_producer_iter sem_init 1 =
      Returns \<lparr>sem_buffer = [1, 0, 0, 0, 0], sem_in = 1, sem_out = 0,
        sem_empty = 4, sem_full = 1, sem_mutex = 1\<rparr>"
    by code_simp
  with sem_reach_init have r1: "sem_reachable
      \<lparr>sem_buffer = [1, 0, 0, 0, 0], sem_in = 1, sem_out = 0,
        sem_empty = 4, sem_full = 1, sem_mutex = 1\<rparr>"
    by (rule sem_reach_put)
  have "sem_producer_iter
      \<lparr>sem_buffer = [1, 0, 0, 0, 0], sem_in = 1, sem_out = 0,
        sem_empty = 4, sem_full = 1, sem_mutex = 1\<rparr> 2 =
      Returns \<lparr>sem_buffer = [1, 2, 0, 0, 0], sem_in = 2, sem_out = 0,
        sem_empty = 3, sem_full = 2, sem_mutex = 1\<rparr>"
    by code_simp
  with r1 have r2: "sem_reachable
      \<lparr>sem_buffer = [1, 2, 0, 0, 0], sem_in = 2, sem_out = 0,
        sem_empty = 3, sem_full = 2, sem_mutex = 1\<rparr>"
    by (rule sem_reach_put)
  have "sem_producer_iter
      \<lparr>sem_buffer = [1, 2, 0, 0, 0], sem_in = 2, sem_out = 0,
        sem_empty = 3, sem_full = 2, sem_mutex = 1\<rparr> 3 =
      Returns \<lparr>sem_buffer = [1, 2, 3, 0, 0], sem_in = 3, sem_out = 0,
        sem_empty = 2, sem_full = 3, sem_mutex = 1\<rparr>"
    by code_simp
  with r2 have r3: "sem_reachable
      \<lparr>sem_buffer = [1, 2, 3, 0, 0], sem_in = 3, sem_out = 0,
        sem_empty = 2, sem_full = 3, sem_mutex = 1\<rparr>"
    by (rule sem_reach_put)
  have "sem_producer_iter
      \<lparr>sem_buffer = [1, 2, 3, 0, 0], sem_in = 3, sem_out = 0,
        sem_empty = 2, sem_full = 3, sem_mutex = 1\<rparr> 4 =
      Returns \<lparr>sem_buffer = [1, 2, 3, 4, 0], sem_in = 4, sem_out = 0,
        sem_empty = 1, sem_full = 4, sem_mutex = 1\<rparr>"
    by code_simp
  with r3 have r4: "sem_reachable
      \<lparr>sem_buffer = [1, 2, 3, 4, 0], sem_in = 4, sem_out = 0,
        sem_empty = 1, sem_full = 4, sem_mutex = 1\<rparr>"
    by (rule sem_reach_put)
  have "sem_producer_iter
      \<lparr>sem_buffer = [1, 2, 3, 4, 0], sem_in = 4, sem_out = 0,
        sem_empty = 1, sem_full = 4, sem_mutex = 1\<rparr> 5 =
      Returns \<lparr>sem_buffer = [1, 2, 3, 4, 5], sem_in = 0, sem_out = 0,
        sem_empty = 0, sem_full = 5, sem_mutex = 1\<rparr>"
    by code_simp
  with r4 have r5: "sem_reachable
      \<lparr>sem_buffer = [1, 2, 3, 4, 5], sem_in = 0, sem_out = 0,
        sem_empty = 0, sem_full = 5, sem_mutex = 1\<rparr>"
    by (rule sem_reach_put)
  from r5 show ?thesis .
qed

lemma sem_wrap_reachable:
  "sem_reachable
     \<lparr>sem_buffer = [1, 2, 3, 4, 0], sem_in = 4, sem_out = 3,
        sem_empty = 4, sem_full = 1, sem_mutex = 1\<rparr>"
proof -
  have "sem_producer_iter sem_init 1 =
      Returns \<lparr>sem_buffer = [1, 0, 0, 0, 0], sem_in = 1, sem_out = 0,
        sem_empty = 4, sem_full = 1, sem_mutex = 1\<rparr>"
    by code_simp
  with sem_reach_init have r1: "sem_reachable
      \<lparr>sem_buffer = [1, 0, 0, 0, 0], sem_in = 1, sem_out = 0,
        sem_empty = 4, sem_full = 1, sem_mutex = 1\<rparr>"
    by (rule sem_reach_put)
  have "sem_producer_iter
      \<lparr>sem_buffer = [1, 0, 0, 0, 0], sem_in = 1, sem_out = 0,
        sem_empty = 4, sem_full = 1, sem_mutex = 1\<rparr> 2 =
      Returns \<lparr>sem_buffer = [1, 2, 0, 0, 0], sem_in = 2, sem_out = 0,
        sem_empty = 3, sem_full = 2, sem_mutex = 1\<rparr>"
    by code_simp
  with r1 have r2: "sem_reachable
      \<lparr>sem_buffer = [1, 2, 0, 0, 0], sem_in = 2, sem_out = 0,
        sem_empty = 3, sem_full = 2, sem_mutex = 1\<rparr>"
    by (rule sem_reach_put)
  have "sem_producer_iter
      \<lparr>sem_buffer = [1, 2, 0, 0, 0], sem_in = 2, sem_out = 0,
        sem_empty = 3, sem_full = 2, sem_mutex = 1\<rparr> 3 =
      Returns \<lparr>sem_buffer = [1, 2, 3, 0, 0], sem_in = 3, sem_out = 0,
        sem_empty = 2, sem_full = 3, sem_mutex = 1\<rparr>"
    by code_simp
  with r2 have r3: "sem_reachable
      \<lparr>sem_buffer = [1, 2, 3, 0, 0], sem_in = 3, sem_out = 0,
        sem_empty = 2, sem_full = 3, sem_mutex = 1\<rparr>"
    by (rule sem_reach_put)
  have "sem_producer_iter
      \<lparr>sem_buffer = [1, 2, 3, 0, 0], sem_in = 3, sem_out = 0,
        sem_empty = 2, sem_full = 3, sem_mutex = 1\<rparr> 4 =
      Returns \<lparr>sem_buffer = [1, 2, 3, 4, 0], sem_in = 4, sem_out = 0,
        sem_empty = 1, sem_full = 4, sem_mutex = 1\<rparr>"
    by code_simp
  with r3 have r4: "sem_reachable
      \<lparr>sem_buffer = [1, 2, 3, 4, 0], sem_in = 4, sem_out = 0,
        sem_empty = 1, sem_full = 4, sem_mutex = 1\<rparr>"
    by (rule sem_reach_put)
  have "sem_consumer_iter
      \<lparr>sem_buffer = [1, 2, 3, 4, 0], sem_in = 4, sem_out = 0,
        sem_empty = 1, sem_full = 4, sem_mutex = 1\<rparr> =
      Returns (\<lparr>sem_buffer = [1, 2, 3, 4, 0], sem_in = 4, sem_out = 1,
        sem_empty = 2, sem_full = 3, sem_mutex = 1\<rparr>, 1)"
    by code_simp
  with r4 have r5: "sem_reachable
      \<lparr>sem_buffer = [1, 2, 3, 4, 0], sem_in = 4, sem_out = 1,
        sem_empty = 2, sem_full = 3, sem_mutex = 1\<rparr>"
    by (rule sem_reach_take)
  have "sem_consumer_iter
      \<lparr>sem_buffer = [1, 2, 3, 4, 0], sem_in = 4, sem_out = 1,
        sem_empty = 2, sem_full = 3, sem_mutex = 1\<rparr> =
      Returns (\<lparr>sem_buffer = [1, 2, 3, 4, 0], sem_in = 4, sem_out = 2,
        sem_empty = 3, sem_full = 2, sem_mutex = 1\<rparr>, 2)"
    by code_simp
  with r5 have r6: "sem_reachable
      \<lparr>sem_buffer = [1, 2, 3, 4, 0], sem_in = 4, sem_out = 2,
        sem_empty = 3, sem_full = 2, sem_mutex = 1\<rparr>"
    by (rule sem_reach_take)
  have "sem_consumer_iter
      \<lparr>sem_buffer = [1, 2, 3, 4, 0], sem_in = 4, sem_out = 2,
        sem_empty = 3, sem_full = 2, sem_mutex = 1\<rparr> =
      Returns (\<lparr>sem_buffer = [1, 2, 3, 4, 0], sem_in = 4, sem_out = 3,
        sem_empty = 4, sem_full = 1, sem_mutex = 1\<rparr>, 3)"
    by code_simp
  with r6 have r7: "sem_reachable
      \<lparr>sem_buffer = [1, 2, 3, 4, 0], sem_in = 4, sem_out = 3,
        sem_empty = 4, sem_full = 1, sem_mutex = 1\<rparr>"
    by (rule sem_reach_take)
  from r7 show ?thesis .
qed

section \<open>The running semaphore program: the invariant\<close>

lemma prog_inv_start: "prog_inv sem_main_start"
  by (simp add: prog_inv_def counter_ok_def sem_main_start_def sem_init_def writes_done_def
      reads_done_def sem_iterations BUFFER_SIZE_def)

lemma prog_inv_bounds:
  assumes "prog_inv p"
  shows "int (sem_mutex (prog_shared p)) \<le> 1" "int (sem_full (prog_shared p)) \<le> 14"
    "int (sem_empty (prog_shared p)) \<le> 19"
proof -
  have nonneg: "0 \<le> in_critical c" "0 \<le> acquired c" for c
    by (cases c; simp)+
  have i: "0 \<le> prog_i p th \<and> prog_i p th \<le> 7" for th
    using assms by (cases th) (simp_all add: prog_inv_def counter_ok_def sem_iterations)
  from assms nonneg [of "prog_pc p Prod1"] nonneg [of "prog_pc p Prod2"]
    nonneg [of "prog_pc p Cons1"] nonneg [of "prog_pc p Cons2"]
  show "int (sem_mutex (prog_shared p)) \<le> 1"
    by (simp add: prog_inv_def)
  from assms nonneg [of "prog_pc p Prod1"] nonneg [of "prog_pc p Prod2"]
    nonneg [of "prog_pc p Cons1"] nonneg [of "prog_pc p Cons2"]
    i [of Prod1] i [of Prod2] i [of Cons1] i [of Cons2]
  show "int (sem_full (prog_shared p)) \<le> 14" "int (sem_empty (prog_shared p)) \<le> 19"
    by (simp_all add: prog_inv_def BUFFER_SIZE_def)
qed

lemma prog_inv_step_Prod1:
  assumes inv: "prog_inv p" and run: "\<not> returned p Prod1" and step: "sem_stmt Prod1 p = Returns p'"
  shows "prog_inv p'"
proof -
  from prog_inv_bounds [OF inv]
  have small: "int (sem_mutex (prog_shared p)) < SEM_VALUE_MAX"
    "int (sem_full (prog_shared p)) < SEM_VALUE_MAX"
    "int (sem_empty (prog_shared p)) < SEM_VALUE_MAX"
    by (simp_all add: SEM_VALUE_MAX_def)
  show ?thesis
  proof (cases "prog_pc p Prod1")
    case WaitSlot
    with step obtain e where e: "0 < sem_empty (prog_shared p)" "int e = int (sem_empty (prog_shared p)) - 1"
      and p': "p' = p\<lparr>prog_shared := (prog_shared p)\<lparr>sem_empty := e\<rparr>,
                       prog_item := (prog_item p)(Prod1 := thread_id Prod1 * 100 + prog_i p Prod1),
                       prog_pc := (prog_pc p)(Prod1 := WaitMutex)\<rparr>"
      by (auto simp: sem_stmt_def Let_def sem_wait_Some split: option.splits)
    from inv run WaitSlot e show ?thesis
      unfolding p'
      by (simp add: prog_inv_def counter_ok_def returned_def writes_done_def reads_done_def)
  next
    case WaitMutex
    with step obtain m where m: "0 < sem_mutex (prog_shared p)" "int m = int (sem_mutex (prog_shared p)) - 1"
      and p': "p' = p\<lparr>prog_shared := (prog_shared p)\<lparr>sem_mutex := m\<rparr>,
                       prog_pc := (prog_pc p)(Prod1 := Access)\<rparr>"
      by (auto simp: sem_stmt_def Let_def sem_wait_Some split: option.splits)
    from inv WaitMutex m show ?thesis
      unfolding p'
      by (simp add: prog_inv_def counter_ok_def writes_done_def reads_done_def)
  next
    case Access
    with step have p': "p' = p\<lparr>prog_shared := (prog_shared p)\<lparr>sem_buffer :=
                          (sem_buffer (prog_shared p))[nat (sem_in (prog_shared p)) := prog_item p Prod1]\<rparr>,
                       prog_produced := prog_produced p @ [prog_item p Prod1],
                       prog_pc := (prog_pc p)(Prod1 := Advance)\<rparr>"
      by (auto simp: sem_stmt_def Let_def split: if_splits)
    from inv Access show ?thesis
      unfolding p'
      by (simp add: prog_inv_def counter_ok_def writes_done_def reads_done_def algebra_simps)
  next
    case Advance
    with step have p': "p' = p\<lparr>prog_shared := (prog_shared p)\<lparr>sem_in :=
                          (sem_in (prog_shared p) + 1) smod BUFFER_SIZE\<rparr>,
                       prog_pc := (prog_pc p)(Prod1 := PostMutex)\<rparr>"
      by (auto simp: sem_stmt_def Let_def split: if_splits)
    from inv Advance show ?thesis
      unfolding p'
      by (simp add: prog_inv_def counter_ok_def writes_done_def reads_done_def advance_mod_mod'
          algebra_simps)
  next
    case PostMutex
    with step have p': "p' = p\<lparr>prog_shared := (prog_shared p)\<lparr>sem_mutex :=
                          sem_post (sem_mutex (prog_shared p))\<rparr>,
                       prog_pc := (prog_pc p)(Prod1 := PostSlot)\<rparr>"
      by (auto simp: sem_stmt_def Let_def)
    from inv PostMutex small show ?thesis
      unfolding p'
      by (simp add: prog_inv_def counter_ok_def writes_done_def reads_done_def sem_post_small)
  next
    case PostSlot
    with step have p': "p' = p\<lparr>prog_shared := (prog_shared p)\<lparr>sem_full :=
                          sem_post (sem_full (prog_shared p))\<rparr>,
                       prog_i := (prog_i p)(Prod1 := prog_i p Prod1 + 1),
                       prog_pc := (prog_pc p)(Prod1 := WaitSlot)\<rparr>"
      by (auto simp: sem_stmt_def Let_def)
    from inv PostSlot small show ?thesis
      unfolding p'
      by (simp add: prog_inv_def counter_ok_def writes_done_def reads_done_def sem_post_small
          algebra_simps)
  qed
qed

lemma prog_inv_step_Prod2:
  assumes inv: "prog_inv p" and run: "\<not> returned p Prod2" and step: "sem_stmt Prod2 p = Returns p'"
  shows "prog_inv p'"
proof -
  from prog_inv_bounds [OF inv]
  have small: "int (sem_mutex (prog_shared p)) < SEM_VALUE_MAX"
    "int (sem_full (prog_shared p)) < SEM_VALUE_MAX"
    "int (sem_empty (prog_shared p)) < SEM_VALUE_MAX"
    by (simp_all add: SEM_VALUE_MAX_def)
  show ?thesis
  proof (cases "prog_pc p Prod2")
    case WaitSlot
    with step obtain e where e: "0 < sem_empty (prog_shared p)" "int e = int (sem_empty (prog_shared p)) - 1"
      and p': "p' = p\<lparr>prog_shared := (prog_shared p)\<lparr>sem_empty := e\<rparr>,
                       prog_item := (prog_item p)(Prod2 := thread_id Prod2 * 100 + prog_i p Prod2),
                       prog_pc := (prog_pc p)(Prod2 := WaitMutex)\<rparr>"
      by (auto simp: sem_stmt_def Let_def sem_wait_Some split: option.splits)
    from inv run WaitSlot e show ?thesis
      unfolding p'
      by (simp add: prog_inv_def counter_ok_def returned_def writes_done_def reads_done_def)
  next
    case WaitMutex
    with step obtain m where m: "0 < sem_mutex (prog_shared p)" "int m = int (sem_mutex (prog_shared p)) - 1"
      and p': "p' = p\<lparr>prog_shared := (prog_shared p)\<lparr>sem_mutex := m\<rparr>,
                       prog_pc := (prog_pc p)(Prod2 := Access)\<rparr>"
      by (auto simp: sem_stmt_def Let_def sem_wait_Some split: option.splits)
    from inv WaitMutex m show ?thesis
      unfolding p'
      by (simp add: prog_inv_def counter_ok_def writes_done_def reads_done_def)
  next
    case Access
    with step have p': "p' = p\<lparr>prog_shared := (prog_shared p)\<lparr>sem_buffer :=
                          (sem_buffer (prog_shared p))[nat (sem_in (prog_shared p)) := prog_item p Prod2]\<rparr>,
                       prog_produced := prog_produced p @ [prog_item p Prod2],
                       prog_pc := (prog_pc p)(Prod2 := Advance)\<rparr>"
      by (auto simp: sem_stmt_def Let_def split: if_splits)
    from inv Access show ?thesis
      unfolding p'
      by (simp add: prog_inv_def counter_ok_def writes_done_def reads_done_def algebra_simps)
  next
    case Advance
    with step have p': "p' = p\<lparr>prog_shared := (prog_shared p)\<lparr>sem_in :=
                          (sem_in (prog_shared p) + 1) smod BUFFER_SIZE\<rparr>,
                       prog_pc := (prog_pc p)(Prod2 := PostMutex)\<rparr>"
      by (auto simp: sem_stmt_def Let_def split: if_splits)
    from inv Advance show ?thesis
      unfolding p'
      by (simp add: prog_inv_def counter_ok_def writes_done_def reads_done_def advance_mod_mod'
          algebra_simps)
  next
    case PostMutex
    with step have p': "p' = p\<lparr>prog_shared := (prog_shared p)\<lparr>sem_mutex :=
                          sem_post (sem_mutex (prog_shared p))\<rparr>,
                       prog_pc := (prog_pc p)(Prod2 := PostSlot)\<rparr>"
      by (auto simp: sem_stmt_def Let_def)
    from inv PostMutex small show ?thesis
      unfolding p'
      by (simp add: prog_inv_def counter_ok_def writes_done_def reads_done_def sem_post_small)
  next
    case PostSlot
    with step have p': "p' = p\<lparr>prog_shared := (prog_shared p)\<lparr>sem_full :=
                          sem_post (sem_full (prog_shared p))\<rparr>,
                       prog_i := (prog_i p)(Prod2 := prog_i p Prod2 + 1),
                       prog_pc := (prog_pc p)(Prod2 := WaitSlot)\<rparr>"
      by (auto simp: sem_stmt_def Let_def)
    from inv PostSlot small show ?thesis
      unfolding p'
      by (simp add: prog_inv_def counter_ok_def writes_done_def reads_done_def sem_post_small
          algebra_simps)
  qed
qed

lemma prog_inv_step_Cons1:
  assumes inv: "prog_inv p" and run: "\<not> returned p Cons1" and step: "sem_stmt Cons1 p = Returns p'"
  shows "prog_inv p'"
proof -
  from prog_inv_bounds [OF inv]
  have small: "int (sem_mutex (prog_shared p)) < SEM_VALUE_MAX"
    "int (sem_full (prog_shared p)) < SEM_VALUE_MAX"
    "int (sem_empty (prog_shared p)) < SEM_VALUE_MAX"
    by (simp_all add: SEM_VALUE_MAX_def)
  show ?thesis
  proof (cases "prog_pc p Cons1")
    case WaitSlot
    with step obtain f where f: "0 < sem_full (prog_shared p)" "int f = int (sem_full (prog_shared p)) - 1"
      and p': "p' = p\<lparr>prog_shared := (prog_shared p)\<lparr>sem_full := f\<rparr>,
                       prog_pc := (prog_pc p)(Cons1 := WaitMutex)\<rparr>"
      by (auto simp: sem_stmt_def Let_def sem_wait_Some split: option.splits)
    from inv run WaitSlot f show ?thesis
      unfolding p'
      by (simp add: prog_inv_def counter_ok_def returned_def writes_done_def reads_done_def)
  next
    case WaitMutex
    with step obtain m where m: "0 < sem_mutex (prog_shared p)" "int m = int (sem_mutex (prog_shared p)) - 1"
      and p': "p' = p\<lparr>prog_shared := (prog_shared p)\<lparr>sem_mutex := m\<rparr>,
                       prog_pc := (prog_pc p)(Cons1 := Access)\<rparr>"
      by (auto simp: sem_stmt_def Let_def sem_wait_Some split: option.splits)
    from inv WaitMutex m show ?thesis
      unfolding p'
      by (simp add: prog_inv_def counter_ok_def writes_done_def reads_done_def)
  next
    case Access
    with step have p': "p' = p\<lparr>prog_item := (prog_item p)
                          (Cons1 := sem_buffer (prog_shared p) ! nat (sem_out (prog_shared p))),
                       prog_consumed := prog_consumed p
                          @ [sem_buffer (prog_shared p) ! nat (sem_out (prog_shared p))],
                       prog_pc := (prog_pc p)(Cons1 := Advance)\<rparr>"
      by (auto simp: sem_stmt_def Let_def split: if_splits)
    from inv Access show ?thesis
      unfolding p'
      by (simp add: prog_inv_def counter_ok_def writes_done_def reads_done_def algebra_simps)
  next
    case Advance
    with step have p': "p' = p\<lparr>prog_shared := (prog_shared p)\<lparr>sem_out :=
                          (sem_out (prog_shared p) + 1) smod BUFFER_SIZE\<rparr>,
                       prog_pc := (prog_pc p)(Cons1 := PostMutex)\<rparr>"
      by (auto simp: sem_stmt_def Let_def split: if_splits)
    from inv Advance show ?thesis
      unfolding p'
      by (simp add: prog_inv_def counter_ok_def writes_done_def reads_done_def advance_mod_mod'
          algebra_simps)
  next
    case PostMutex
    with step have p': "p' = p\<lparr>prog_shared := (prog_shared p)\<lparr>sem_mutex :=
                          sem_post (sem_mutex (prog_shared p))\<rparr>,
                       prog_pc := (prog_pc p)(Cons1 := PostSlot)\<rparr>"
      by (auto simp: sem_stmt_def Let_def)
    from inv PostMutex small show ?thesis
      unfolding p'
      by (simp add: prog_inv_def counter_ok_def writes_done_def reads_done_def sem_post_small)
  next
    case PostSlot
    with step have p': "p' = p\<lparr>prog_shared := (prog_shared p)\<lparr>sem_empty :=
                          sem_post (sem_empty (prog_shared p))\<rparr>,
                       prog_i := (prog_i p)(Cons1 := prog_i p Cons1 + 1),
                       prog_pc := (prog_pc p)(Cons1 := WaitSlot)\<rparr>"
      by (auto simp: sem_stmt_def Let_def)
    from inv PostSlot small show ?thesis
      unfolding p'
      by (simp add: prog_inv_def counter_ok_def writes_done_def reads_done_def sem_post_small
          algebra_simps)
  qed
qed

lemma prog_inv_step_Cons2:
  assumes inv: "prog_inv p" and run: "\<not> returned p Cons2" and step: "sem_stmt Cons2 p = Returns p'"
  shows "prog_inv p'"
proof -
  from prog_inv_bounds [OF inv]
  have small: "int (sem_mutex (prog_shared p)) < SEM_VALUE_MAX"
    "int (sem_full (prog_shared p)) < SEM_VALUE_MAX"
    "int (sem_empty (prog_shared p)) < SEM_VALUE_MAX"
    by (simp_all add: SEM_VALUE_MAX_def)
  show ?thesis
  proof (cases "prog_pc p Cons2")
    case WaitSlot
    with step obtain f where f: "0 < sem_full (prog_shared p)" "int f = int (sem_full (prog_shared p)) - 1"
      and p': "p' = p\<lparr>prog_shared := (prog_shared p)\<lparr>sem_full := f\<rparr>,
                       prog_pc := (prog_pc p)(Cons2 := WaitMutex)\<rparr>"
      by (auto simp: sem_stmt_def Let_def sem_wait_Some split: option.splits)
    from inv run WaitSlot f show ?thesis
      unfolding p'
      by (simp add: prog_inv_def counter_ok_def returned_def writes_done_def reads_done_def)
  next
    case WaitMutex
    with step obtain m where m: "0 < sem_mutex (prog_shared p)" "int m = int (sem_mutex (prog_shared p)) - 1"
      and p': "p' = p\<lparr>prog_shared := (prog_shared p)\<lparr>sem_mutex := m\<rparr>,
                       prog_pc := (prog_pc p)(Cons2 := Access)\<rparr>"
      by (auto simp: sem_stmt_def Let_def sem_wait_Some split: option.splits)
    from inv WaitMutex m show ?thesis
      unfolding p'
      by (simp add: prog_inv_def counter_ok_def writes_done_def reads_done_def)
  next
    case Access
    with step have p': "p' = p\<lparr>prog_item := (prog_item p)
                          (Cons2 := sem_buffer (prog_shared p) ! nat (sem_out (prog_shared p))),
                       prog_consumed := prog_consumed p
                          @ [sem_buffer (prog_shared p) ! nat (sem_out (prog_shared p))],
                       prog_pc := (prog_pc p)(Cons2 := Advance)\<rparr>"
      by (auto simp: sem_stmt_def Let_def split: if_splits)
    from inv Access show ?thesis
      unfolding p'
      by (simp add: prog_inv_def counter_ok_def writes_done_def reads_done_def algebra_simps)
  next
    case Advance
    with step have p': "p' = p\<lparr>prog_shared := (prog_shared p)\<lparr>sem_out :=
                          (sem_out (prog_shared p) + 1) smod BUFFER_SIZE\<rparr>,
                       prog_pc := (prog_pc p)(Cons2 := PostMutex)\<rparr>"
      by (auto simp: sem_stmt_def Let_def split: if_splits)
    from inv Advance show ?thesis
      unfolding p'
      by (simp add: prog_inv_def counter_ok_def writes_done_def reads_done_def advance_mod_mod'
          algebra_simps)
  next
    case PostMutex
    with step have p': "p' = p\<lparr>prog_shared := (prog_shared p)\<lparr>sem_mutex :=
                          sem_post (sem_mutex (prog_shared p))\<rparr>,
                       prog_pc := (prog_pc p)(Cons2 := PostSlot)\<rparr>"
      by (auto simp: sem_stmt_def Let_def)
    from inv PostMutex small show ?thesis
      unfolding p'
      by (simp add: prog_inv_def counter_ok_def writes_done_def reads_done_def sem_post_small)
  next
    case PostSlot
    with step have p': "p' = p\<lparr>prog_shared := (prog_shared p)\<lparr>sem_empty :=
                          sem_post (sem_empty (prog_shared p))\<rparr>,
                       prog_i := (prog_i p)(Cons2 := prog_i p Cons2 + 1),
                       prog_pc := (prog_pc p)(Cons2 := WaitSlot)\<rparr>"
      by (auto simp: sem_stmt_def Let_def)
    from inv PostSlot small show ?thesis
      unfolding p'
      by (simp add: prog_inv_def counter_ok_def writes_done_def reads_done_def sem_post_small
          algebra_simps)
  qed
qed

lemma prog_inv_step:
  assumes "prog_inv p" "\<not> returned p th" "sem_stmt th p = Returns p'"
  shows "prog_inv p'"
  using assms
  by (cases th)
    (blast intro: prog_inv_step_Prod1 prog_inv_step_Prod2 prog_inv_step_Cons1 prog_inv_step_Cons2)+

lemma prog_inv_cursors:
  assumes "prog_inv p"
  shows "0 \<le> sem_in (prog_shared p)" "sem_in (prog_shared p) < int (length (sem_buffer (prog_shared p)))"
    "0 \<le> sem_out (prog_shared p)" "sem_out (prog_shared p) < int (length (sem_buffer (prog_shared p)))"
  using assms BUFFER_SIZE_pos by (simp_all add: prog_inv_def)

lemma sem_stmt_no_fault:
  assumes "prog_inv p"
  shows "sem_stmt th p \<noteq> Faults f"
proof -
  from prog_inv_cursors [OF assms] have "sem_in (prog_shared p) \<noteq> INT_MAX"
      "sem_out (prog_shared p) \<noteq> INT_MAX"
    using assms by (simp_all add: prog_inv_def INT_MAX_def BUFFER_SIZE_def)
  with prog_inv_cursors [OF assms] show ?thesis
    by (cases "prog_pc p th") (simp_all add: sem_stmt_def Let_def split: option.splits)
qed

lemma sem_interleave_inv:
  assumes "prog_inv p"
  shows "\<exists>p'. sem_interleave sched p = Inr p' \<and> prog_inv p'"
  using assms
proof (induction sched arbitrary: p)
  case Nil
  then show ?case by simp
next
  case (Cons th ths)
  show ?case
  proof (cases "returned p th")
    case True
    with Cons show ?thesis by simp
  next
    case False
    show ?thesis
    proof (cases "sem_stmt th p")
      case Blocks
      with False Cons show ?thesis by simp
    next
      case (Faults f)
      with Cons.prems show ?thesis
        by (simp add: sem_stmt_no_fault)
    next
      case (Returns p')
      with Cons.prems False have "prog_inv p'"
        by (blast intro: prog_inv_step)
      with Cons.IH [of p'] False Returns show ?thesis by simp
    qed
  qed
qed

lemma prog_inv_logs:
  assumes "prog_inv p"
  shows "length (prog_consumed p) \<le> length (prog_produced p)"
    and "int (length (prog_produced p)) \<le> 14"
    and "int (length (prog_produced p)) - int (length (prog_consumed p)) \<le> BUFFER_SIZE"
proof -
  have acq: "0 \<le> acquired c" "accessed c \<le> acquired c" "0 \<le> accessed c" for c
    by (cases c; simp)+
  from assms have full: "int (sem_full (prog_shared p))
       + prog_i p Cons1 + acquired (prog_pc p Cons1)
       + prog_i p Cons2 + acquired (prog_pc p Cons2)
       = prog_i p Prod1 + prog_i p Prod2"
    and empty: "int (sem_empty (prog_shared p))
       + prog_i p Prod1 + acquired (prog_pc p Prod1)
       + prog_i p Prod2 + acquired (prog_pc p Prod2)
       = BUFFER_SIZE + prog_i p Cons1 + prog_i p Cons2"
    and w: "int (length (prog_produced p)) = prog_i p Prod1 + accessed (prog_pc p Prod1)
                 + prog_i p Prod2 + accessed (prog_pc p Prod2)"
    and r: "int (length (prog_consumed p)) = prog_i p Cons1 + accessed (prog_pc p Cons1)
                + prog_i p Cons2 + accessed (prog_pc p Cons2)"
    by (simp_all add: prog_inv_def writes_done_def reads_done_def)
  from full w r acq [of "prog_pc p Prod1"] acq [of "prog_pc p Prod2"]
    acq [of "prog_pc p Cons1"] acq [of "prog_pc p Cons2"]
  have "int (length (prog_consumed p)) \<le> int (length (prog_produced p))"
    by linarith
  then show "length (prog_consumed p) \<le> length (prog_produced p)"
    by simp
  from empty w r acq [of "prog_pc p Prod1"] acq [of "prog_pc p Prod2"]
    acq [of "prog_pc p Cons1"] acq [of "prog_pc p Cons2"]
  show "int (length (prog_produced p)) - int (length (prog_consumed p)) \<le> BUFFER_SIZE"
    by linarith
  have c: "prog_i p t + accessed (prog_pc p t) \<le> 7" for t
    using assms by (cases t; cases "prog_pc p t") (simp_all add: prog_inv_def counter_ok_def sem_iterations)
  from w c [of Prod1] c [of Prod2] show "int (length (prog_produced p)) \<le> 14"
    by linarith
qed

lemma prog_inv_full:
  assumes "prog_inv p"
  shows "int (sem_full (prog_shared p)) \<le> BUFFER_SIZE"
proof -
  have acq: "0 \<le> acquired c" for c
    by (cases c) simp_all
  from assms have "int (sem_full (prog_shared p))
       + prog_i p Cons1 + acquired (prog_pc p Cons1)
       + prog_i p Cons2 + acquired (prog_pc p Cons2)
       = prog_i p Prod1 + prog_i p Prod2"
    and "int (sem_empty (prog_shared p))
       + prog_i p Prod1 + acquired (prog_pc p Prod1)
       + prog_i p Prod2 + acquired (prog_pc p Prod2)
       = BUFFER_SIZE + prog_i p Cons1 + prog_i p Cons2"
    by (simp_all add: prog_inv_def)
  with acq [of "prog_pc p Prod1"] acq [of "prog_pc p Prod2"]
    acq [of "prog_pc p Cons1"] acq [of "prog_pc p Cons2"]
  show ?thesis
    by linarith
qed

section \<open>The running semaphore program: no deadlock\<close>

lemma halted_thread:
  assumes inv: "prog_inv p" and halt: "sem_halted p"
  shows "prog_pc p th = WaitSlot \<or>
           (prog_pc p th = WaitMutex \<and> sem_mutex (prog_shared p) = 0)"
    and "prog_pc p th = WaitSlot \<Longrightarrow>
           prog_i p th = 7 \<or>
           (if is_producer th then sem_empty (prog_shared p) = 0
            else sem_full (prog_shared p) = 0)"
proof -
  from halt have h: "returned p th \<or>
      (case sem_stmt th p of Blocks \<Rightarrow> True | Faults f \<Rightarrow> False | Returns p' \<Rightarrow> False)"
    by (cases th) (simp_all add: sem_halted_def sem_threads_def)
  then show "prog_pc p th = WaitSlot \<or>
           (prog_pc p th = WaitMutex \<and> sem_mutex (prog_shared p) = 0)"
    by (cases "prog_pc p th")
      (auto simp: returned_def sem_stmt_def Let_def sem_wait_def split: if_splits)
  have i: "prog_i p th \<le> 7"
    using inv by (cases th) (simp_all add: prog_inv_def counter_ok_def sem_iterations)
  assume "prog_pc p th = WaitSlot"
  with h i show "prog_i p th = 7 \<or>
           (if is_producer th then sem_empty (prog_shared p) = 0
            else sem_full (prog_shared p) = 0)"
    by (auto simp: returned_def sem_stmt_def Let_def sem_wait_def sem_iterations split: if_splits)
qed

lemma halted_returned:
  assumes inv: "prog_inv p" and halt: "sem_halted p"
  shows "prog_pc p th = WaitSlot \<and> prog_i p th = 7"
proof -
  note pcs = halted_thread(1) [OF inv halt]
  have crit: "in_critical (prog_pc p t) = 0" for t
    using pcs [of t] by auto
  from inv have "int (sem_mutex (prog_shared p)) = 1"
    by (simp add: prog_inv_def crit)
  with pcs have idle: "prog_pc p t = WaitSlot" for t
    by (metis of_nat_0 zero_neq_one)
  note blocked = halted_thread(2) [OF inv halt idle]
  from inv have i: "0 \<le> prog_i p t \<and> prog_i p t \<le> 7" for t
    by (cases t) (simp_all add: prog_inv_def counter_ok_def sem_iterations)
  from inv have empty: "int (sem_empty (prog_shared p)) + prog_i p Prod1 + prog_i p Prod2
      = 5 + prog_i p Cons1 + prog_i p Cons2"
    and full: "int (sem_full (prog_shared p)) + prog_i p Cons1 + prog_i p Cons2
      = prog_i p Prod1 + prog_i p Prod2"
    by (simp_all add: prog_inv_def idle BUFFER_SIZE_def)
  from blocked [of Prod1] blocked [of Prod2] blocked [of Cons1] blocked [of Cons2]
    i [of Prod1] i [of Prod2] i [of Cons1] i [of Cons2] empty full
  have "prog_i p Prod1 = 7 \<and> prog_i p Prod2 = 7 \<and> prog_i p Cons1 = 7 \<and> prog_i p Cons2 = 7"
    by simp presburger
  then have "prog_i p th = 7"
    by (cases th) simp_all
  with idle show ?thesis
    by simp
qed

section \<open>The running semaphore program: FIFO order\<close>

lemma prog_fifoI:
  assumes "prog_produced q = prog_consumed q @ ring (sem_buffer (prog_shared q)) lc c"
    and "lc = int (length (prog_consumed q))"
    and "c = int (length (prog_produced q)) - int (length (prog_consumed q))"
  shows "prog_fifo q"
  using assms by (simp add: prog_fifo_def)

lemma access_exclusive:
  assumes "prog_inv p" "prog_pc p th = Access"
  shows "advancing (prog_pc p t) = 0"
proof -
  have ge: "0 \<le> in_critical c" "advancing c \<le> in_critical c" "0 \<le> advancing c" for c
    by (cases c; simp)+
  from assms(1) have "in_critical (prog_pc p Prod1) + in_critical (prog_pc p Prod2)
       + in_critical (prog_pc p Cons1) + in_critical (prog_pc p Cons2) \<le> 1"
    by (simp add: prog_inv_def)
  moreover from assms(2) have "in_critical (prog_pc p th) = 1" "advancing (prog_pc p th) = 0"
    by simp_all
  ultimately show ?thesis
    using ge [of "prog_pc p Prod1"] ge [of "prog_pc p Prod2"]
      ge [of "prog_pc p Cons1"] ge [of "prog_pc p Cons2"]
    by (cases th; cases t) simp_all
qed

lemma sem_stmt_other:
  assumes "sem_stmt th p = Returns p'" "prog_pc p th \<noteq> Access"
  shows "sem_buffer (prog_shared p') = sem_buffer (prog_shared p)"
    "prog_produced p' = prog_produced p" "prog_consumed p' = prog_consumed p"
  using assms
  by (cases "prog_pc p th";
      auto simp: sem_stmt_def Let_def split: option.splits if_splits)+

lemma prog_fifo_write:
  assumes inv: "prog_inv p" and fifo: "prog_fifo p"
    and pc: "prog_pc p th = Access" and prod: "is_producer th"
  shows "sem_stmt th p =
      Returns (p\<lparr>prog_shared := (prog_shared p)\<lparr>sem_buffer :=
                     (sem_buffer (prog_shared p))[nat (sem_in (prog_shared p)) := prog_item p th]\<rparr>,
                 prog_produced := prog_produced p @ [prog_item p th],
                 prog_pc := (prog_pc p)(th := Advance)\<rparr>)"
    and "prog_fifo (p\<lparr>prog_shared := (prog_shared p)\<lparr>sem_buffer :=
                     (sem_buffer (prog_shared p))[nat (sem_in (prog_shared p)) := prog_item p th]\<rparr>,
                 prog_produced := prog_produced p @ [prog_item p th],
                 prog_pc := (prog_pc p)(th := Advance)\<rparr>)"
proof -
  let ?s = "prog_shared p"
  let ?lp = "int (length (prog_produced p))"
  let ?lc = "int (length (prog_consumed p))"
  from prog_inv_cursors [OF inv] pc prod
  show "sem_stmt th p =
      Returns (p\<lparr>prog_shared := ?s\<lparr>sem_buffer :=
                     (sem_buffer ?s)[nat (sem_in ?s) := prog_item p th]\<rparr>,
                 prog_produced := prog_produced p @ [prog_item p th],
                 prog_pc := (prog_pc p)(th := Advance)\<rparr>)"
    by (simp add: sem_stmt_def Let_def)
  from inv have len: "int (length (sem_buffer ?s)) = BUFFER_SIZE"
    by (simp add: prog_inv_def)
  from inv have "sem_in ?s = ?lp mod BUFFER_SIZE"
    by (simp add: prog_inv_def access_exclusive [OF inv pc])
  then have i: "sem_in ?s = (?lc + (?lp - ?lc)) mod BUFFER_SIZE"
    by simp
  have acq: "0 \<le> acquired c" "accessed c \<le> acquired c" for c
    by (cases c; simp)+
  from inv have empty: "int (sem_empty ?s)
       + prog_i p Prod1 + acquired (prog_pc p Prod1)
       + prog_i p Prod2 + acquired (prog_pc p Prod2)
       = BUFFER_SIZE + prog_i p Cons1 + prog_i p Cons2"
    and w: "?lp = prog_i p Prod1 + accessed (prog_pc p Prod1)
                 + prog_i p Prod2 + accessed (prog_pc p Prod2)"
    and r: "?lc = prog_i p Cons1 + accessed (prog_pc p Cons1)
                + prog_i p Cons2 + accessed (prog_pc p Cons2)"
    by (simp_all add: prog_inv_def writes_done_def reads_done_def)
  have acc: "0 \<le> accessed c" for c
    by (cases c) simp_all
  from prod have "th = Prod1 \<or> th = Prod2"
    by (cases th) simp_all
  with pc empty w r acq [of "prog_pc p Prod1"] acq [of "prog_pc p Prod2"]
    acc [of "prog_pc p Cons1"] acc [of "prog_pc p Cons2"]
  have room: "?lp - ?lc < BUFFER_SIZE"
    by auto
  from prog_inv_logs(1) [OF inv] have nonneg: "0 \<le> ?lp - ?lc"
    by simp
  have "ring ((sem_buffer ?s)[nat (sem_in ?s) := prog_item p th]) ?lc (?lp - ?lc + 1)
      = ring (sem_buffer ?s) ?lc (?lp - ?lc) @ [prog_item p th]"
    using len nonneg room i by (rule ring_put)
  moreover from fifo have "prog_produced p = prog_consumed p @ ring (sem_buffer ?s) ?lc (?lp - ?lc)"
    by (simp only: prog_fifo_def)
  ultimately show "prog_fifo (p\<lparr>prog_shared := ?s\<lparr>sem_buffer :=
                     (sem_buffer ?s)[nat (sem_in ?s) := prog_item p th]\<rparr>,
                 prog_produced := prog_produced p @ [prog_item p th],
                 prog_pc := (prog_pc p)(th := Advance)\<rparr>)"
    by (intro prog_fifoI [where lc = ?lc and c = "?lp - ?lc + 1"]) simp_all
qed

lemma prog_fifo_read:
  assumes inv: "prog_inv p" and fifo: "prog_fifo p"
    and pc: "prog_pc p th = Access" and cons: "\<not> is_producer th"
  shows "sem_stmt th p =
      Returns (p\<lparr>prog_item := (prog_item p)
                   (th := sem_buffer (prog_shared p) ! nat (sem_out (prog_shared p))),
                 prog_consumed := prog_consumed p
                   @ [sem_buffer (prog_shared p) ! nat (sem_out (prog_shared p))],
                 prog_pc := (prog_pc p)(th := Advance)\<rparr>)"
    and "prog_fifo (p\<lparr>prog_item := (prog_item p)
                   (th := sem_buffer (prog_shared p) ! nat (sem_out (prog_shared p))),
                 prog_consumed := prog_consumed p
                   @ [sem_buffer (prog_shared p) ! nat (sem_out (prog_shared p))],
                 prog_pc := (prog_pc p)(th := Advance)\<rparr>)"
proof -
  let ?s = "prog_shared p"
  let ?lp = "int (length (prog_produced p))"
  let ?lc = "int (length (prog_consumed p))"
  from prog_inv_cursors [OF inv] pc cons
  show "sem_stmt th p =
      Returns (p\<lparr>prog_item := (prog_item p)(th := sem_buffer ?s ! nat (sem_out ?s)),
                 prog_consumed := prog_consumed p @ [sem_buffer ?s ! nat (sem_out ?s)],
                 prog_pc := (prog_pc p)(th := Advance)\<rparr>)"
    by (simp add: sem_stmt_def Let_def)
  from inv have out: "sem_out ?s = ?lc mod BUFFER_SIZE"
    by (simp add: prog_inv_def access_exclusive [OF inv pc])
  have acq: "0 \<le> acquired c" "accessed c \<le> acquired c" "0 \<le> accessed c" for c
    by (cases c; simp)+
  from inv have full: "int (sem_full ?s)
       + prog_i p Cons1 + acquired (prog_pc p Cons1)
       + prog_i p Cons2 + acquired (prog_pc p Cons2)
       = prog_i p Prod1 + prog_i p Prod2"
    and w: "?lp = prog_i p Prod1 + accessed (prog_pc p Prod1)
                 + prog_i p Prod2 + accessed (prog_pc p Prod2)"
    and r: "?lc = prog_i p Cons1 + accessed (prog_pc p Cons1)
                + prog_i p Cons2 + accessed (prog_pc p Cons2)"
    by (simp_all add: prog_inv_def writes_done_def reads_done_def)
  from cons have "th = Cons1 \<or> th = Cons2"
    by (cases th) simp_all
  with pc full w r acq [of "prog_pc p Prod1"] acq [of "prog_pc p Prod2"]
    acq [of "prog_pc p Cons1"] acq [of "prog_pc p Cons2"]
  have some: "0 < ?lp - ?lc"
    by auto
  then have "ring (sem_buffer ?s) ?lc (?lp - ?lc) =
      sem_buffer ?s ! nat (?lc mod BUFFER_SIZE) # ring (sem_buffer ?s) (?lc + 1) (?lp - ?lc - 1)"
    by (rule ring_take_any)
  moreover from fifo have "prog_produced p = prog_consumed p @ ring (sem_buffer ?s) ?lc (?lp - ?lc)"
    by (simp only: prog_fifo_def)
  ultimately have "prog_produced p = (prog_consumed p @ [sem_buffer ?s ! nat (sem_out ?s)])
      @ ring (sem_buffer ?s) (?lc + 1) (?lp - ?lc - 1)"
    using out by simp
  then show "prog_fifo (p\<lparr>prog_item := (prog_item p)
                   (th := sem_buffer ?s ! nat (sem_out ?s)),
                 prog_consumed := prog_consumed p @ [sem_buffer ?s ! nat (sem_out ?s)],
                 prog_pc := (prog_pc p)(th := Advance)\<rparr>)"
    by (intro prog_fifoI [where lc = "?lc + 1" and c = "?lp - ?lc - 1"]) simp_all
qed

lemma prog_fifo_step:
  assumes inv: "prog_inv p" and fifo: "prog_fifo p" and step: "sem_stmt th p = Returns p'"
  shows "prog_fifo p'"
proof (cases "prog_pc p th = Access")
  case False
  from sem_stmt_other [OF step False] fifo show ?thesis
    by (simp add: prog_fifo_def)
next
  case True
  show ?thesis
  proof (cases "is_producer th")
    case True
    from prog_fifo_write [OF inv fifo \<open>prog_pc p th = Access\<close> True] step show ?thesis
      by simp
  next
    case False
    from prog_fifo_read [OF inv fifo \<open>prog_pc p th = Access\<close> False] step show ?thesis
      by simp
  qed
qed

lemma prog_fifo_start: "prog_fifo sem_main_start"
  by (simp add: prog_fifo_def sem_main_start_def ring_def)

lemma sem_interleave_fifo:
  assumes "prog_inv p" "prog_fifo p" "sem_interleave sched p = Inr p'"
  shows "prog_fifo p'"
  using assms
proof (induction sched arbitrary: p)
  case Nil
  then show ?case by simp
next
  case (Cons th ths)
  show ?case
  proof (cases "returned p th")
    case True
    with Cons show ?thesis by simp
  next
    case False
    show ?thesis
    proof (cases "sem_stmt th p")
      case Blocks
      with False Cons show ?thesis by simp
    next
      case (Faults f)
      with Cons.prems False show ?thesis by simp
    next
      case (Returns q)
      with Cons.prems False have "prog_inv q" "prog_fifo q"
        by (blast intro: prog_inv_step prog_fifo_step)+
      with Cons.IH [of q] Cons.prems(3) False Returns show ?thesis by simp
    qed
  qed
qed

text \<open>
  Under every interleaving of the statements of the four threads, the items are read from
  the buffer in the order in which they were written into it.
\<close>

lemma sem_interleaved_fifo:
  "\<exists>p. sem_interleave sched sem_main_start = Inr p \<and>
     (\<forall>n < length (prog_consumed p).
         n < length (prog_produced p) \<and> prog_consumed p ! n = prog_produced p ! n)"
proof -
  from prog_inv_start obtain p where run: "sem_interleave sched sem_main_start = Inr p"
    using sem_interleave_inv by blast
  with prog_inv_start prog_fifo_start have "prog_fifo p"
    by (rule sem_interleave_fifo)
  then have "prog_produced p = prog_consumed p @
         ring (sem_buffer (prog_shared p)) (int (length (prog_consumed p)))
           (int (length (prog_produced p)) - int (length (prog_consumed p)))"
    by (simp only: prog_fifo_def)
  then have "\<forall>n < length (prog_consumed p).
         n < length (prog_produced p) \<and> prog_consumed p ! n = prog_produced p ! n"
    by (metis prefix_nth)
  with run show ?thesis
    by blast
qed

section \<open>The running semaphore program: termination\<close>

lemma thread_progress_step:
  assumes "sem_stmt th p = Returns q"
  shows "thread_progress q t = thread_progress p t + (if t = th then 1 else 0)"
  using assms
  by (cases "prog_pc p th")
    (auto simp: sem_stmt_def Let_def thread_progress_def split: option.splits if_splits)

lemma progress_step:
  assumes "sem_stmt th p = Returns q"
  shows "progress q = progress p + 1"
  by (cases th) (simp_all add: progress_def thread_progress_step [OF assms])

lemma sem_interleave_append:
  "sem_interleave (xs @ ys) p =
     (case sem_interleave xs p of Inl f \<Rightarrow> Inl f | Inr q \<Rightarrow> sem_interleave ys q)"
  by (induction xs arbitrary: p) (auto split: outcome.splits)

lemma progress_mono:
  assumes "sem_interleave ths p = Inr q"
  shows "progress p \<le> progress q"
  using assms
proof (induction ths arbitrary: p)
  case Nil
  then show ?case by simp
next
  case (Cons th ths)
  show ?case
  proof (cases "returned p th")
    case True
    with Cons show ?thesis by simp
  next
    case False
    show ?thesis
    proof (cases "sem_stmt th p")
      case Blocks
      with False Cons show ?thesis by simp
    next
      case (Faults f)
      with Cons.prems False show ?thesis by simp
    next
      case (Returns r)
      with Cons.prems False have "sem_interleave ths r = Inr q"
        by simp
      then have "progress r \<le> progress q"
        by (rule Cons.IH)
      with progress_step [OF Returns] show ?thesis
        by simp
    qed
  qed
qed

lemma progress_enabled:
  assumes "th \<in> set ths" "\<not> returned p th" "sem_stmt th p = Returns r"
    and "sem_interleave ths p = Inr q"
  shows "progress p + 1 \<le> progress q"
  using assms
proof (induction ths)
  case Nil
  then show ?case by simp
next
  case (Cons h ths)
  show ?case
  proof (cases "\<not> returned p h \<and> (\<exists>r'. sem_stmt h p = Returns r')")
    case True
    then obtain r' where r': "\<not> returned p h" "sem_stmt h p = Returns r'"
      by blast
    with Cons.prems(4) have "sem_interleave ths r' = Inr q"
      by simp
    then have "progress r' \<le> progress q"
      by (rule progress_mono)
    with progress_step [OF r'(2)] show ?thesis
      by simp
  next
    case False
    with Cons.prems(2,3) have "th \<noteq> h"
      by blast
    with Cons.prems(1) have mem: "th \<in> set ths"
      by simp
    from False Cons.prems(4) have "sem_interleave ths p = Inr q"
      by (cases "sem_stmt h p") (auto split: if_splits)
    with Cons.IH mem Cons.prems(2,3) show ?thesis
      by blast
  qed
qed

lemma halted_stays:
  assumes "sem_halted p"
  shows "sem_interleave ths p = Inr p"
proof (induction ths)
  case Nil
  show ?case by simp
next
  case (Cons h ths)
  from assms have "returned p h \<or> sem_stmt h p = Blocks"
    by (cases h) (auto simp: sem_halted_def sem_threads_def split: outcome.splits)
  with Cons show ?case
    by auto
qed

lemma not_halted_enabled:
  assumes "prog_inv p" "\<not> sem_halted p"
  shows "\<exists>th r. \<not> returned p th \<and> sem_stmt th p = Returns r"
proof -
  from assms(2) obtain th where th: "\<not> returned p th"
      "\<not> (case sem_stmt th p of Blocks \<Rightarrow> True | Faults f \<Rightarrow> False | Returns p' \<Rightarrow> False)"
    by (auto simp: sem_halted_def sem_threads_def)
  with sem_stmt_no_fault [OF assms(1), of th] show ?thesis
    by (cases "sem_stmt th p") auto
qed

lemma round_progress:
  assumes "prog_inv p" "sem_interleave sem_threads p = Inr q"
  shows "sem_halted p \<or> progress p + 1 \<le> progress q"
proof (cases "sem_halted p")
  case True
  then show ?thesis by simp
next
  case False
  with assms(1) obtain th r where th: "\<not> returned p th" "sem_stmt th p = Returns r"
    using not_halted_enabled by blast
  have "th \<in> set sem_threads"
    by (cases th) (simp_all add: sem_threads_def)
  from progress_enabled [OF this th assms(2)] show ?thesis
    by simp
qed

lemma rounds_progress:
  assumes "prog_inv p" "sem_interleave (concat (replicate k sem_threads)) p = Inr q"
  shows "sem_halted q \<or> progress p + int k \<le> progress q"
  using assms
proof (induction k arbitrary: p)
  case 0
  then show ?case by simp
next
  case (Suc k)
  from sem_interleave_inv [OF Suc.prems(1), of sem_threads]
  obtain p1 where p1: "sem_interleave sem_threads p = Inr p1" "prog_inv p1"
    by blast
  with Suc.prems(2) have rest: "sem_interleave (concat (replicate k sem_threads)) p1 = Inr q"
    by (simp add: sem_interleave_append)
  show ?case
  proof (cases "sem_halted p")
    case True
    with Suc.prems(2) halted_stays [OF True, of "concat (replicate (Suc k) sem_threads)"]
    show ?thesis by simp
  next
    case False
    with round_progress [OF Suc.prems(1) p1(1)] have "progress p + 1 \<le> progress p1"
      by simp
    with Suc.IH [OF p1(2) rest] show ?thesis
      by auto
  qed
qed

lemma progress_bound:
  assumes "prog_inv p"
  shows "thread_progress p th \<le> 42" "0 \<le> thread_progress p th"
    and "thread_progress p th = 42 \<Longrightarrow> returned p th"
proof -
  from assms have ok: "counter_ok p th"
    by (cases th) (simp_all add: prog_inv_def)
  then show "thread_progress p th \<le> 42" "0 \<le> thread_progress p th"
    by (cases "prog_pc p th"; simp add: counter_ok_def thread_progress_def sem_iterations)+
  assume "thread_progress p th = 42"
  with ok show "returned p th"
    by (cases "prog_pc p th")
      (simp_all add: counter_ok_def thread_progress_def returned_def sem_iterations)
qed

lemma full_progress_halted:
  assumes "prog_inv p" "168 \<le> progress p"
  shows "sem_halted p"
proof -
  from assms(2) progress_bound(1) [OF assms(1), of Prod1] progress_bound(1) [OF assms(1), of Prod2]
    progress_bound(1) [OF assms(1), of Cons1] progress_bound(1) [OF assms(1), of Cons2]
  have "thread_progress p Prod1 = 42" "thread_progress p Prod2 = 42"
    "thread_progress p Cons1 = 42" "thread_progress p Cons2 = 42"
    by (simp_all add: progress_def)
  then have "returned p Prod1" "returned p Prod2" "returned p Cons1" "returned p Cons2"
    by (simp_all add: progress_bound(3) [OF assms(1)])
  then show ?thesis
    by (simp add: sem_halted_def sem_threads_def)
qed

lemma round_robin_terminates:
  assumes "prog_inv p"
  shows "\<exists>q. sem_interleave (concat (replicate 168 sem_threads)) p = Inr q \<and>
            prog_inv q \<and> sem_halted q"
proof -
  from sem_interleave_inv [OF assms, of "concat (replicate 168 sem_threads)"]
  obtain q where q: "sem_interleave (concat (replicate 168 sem_threads)) p = Inr q" "prog_inv q"
    by blast
  from rounds_progress [OF assms q(1)] have "sem_halted q \<or> progress p + 168 \<le> progress q"
    by simp
  moreover have "0 \<le> progress p"
    using progress_bound(2) [OF assms] by (simp add: progress_def)
  ultimately have "sem_halted q"
    using full_progress_halted [OF q(2)] by auto
  with q show ?thesis
    by blast
qed

lemma round_robin_halts:
  "case sem_interleave (concat (replicate 100 [Prod1, Prod2, Cons1, Cons2])) sem_main_start of
     Inl f \<Rightarrow> False
   | Inr p \<Rightarrow> sem_halted p \<and>
       prog_produced p = [100, 200, 101, 201, 102, 202, 103, 203, 104, 204, 105, 205, 106, 206] \<and>
       prog_consumed p = [100, 200, 101, 201, 102, 202, 103, 203, 104, 204, 105, 205, 106, 206]"
  by code_simp

section \<open>The running semaphore program: an iteration without interruption\<close>

text \<open>
  \<open>sem_producer_iter\<close> and \<open>sem_consumer_iter\<close> against the statements. Where
  \<open>sem_producer_iter\<close> completes, the six statements of a producer's iteration, run
  without another thread in between, complete with the same shared state; likewise for a
  consumer.
\<close>

lemma sem_producer_iter_statements:
  assumes "is_producer th" "prog_pc p th = WaitSlot" "prog_i p th < sem_NUM_ITEMS sdiv 2"
    and "int (length (sem_buffer (prog_shared p))) = BUFFER_SIZE"
    and "sem_producer_iter (prog_shared p) (thread_id th * 100 + prog_i p th) = Returns s'"
  shows "\<exists>p'. sem_interleave [th, th, th, th, th, th] p = Inr p' \<and> prog_shared p' = s' \<and>
           prog_pc p' th = WaitSlot \<and> prog_i p' th = prog_i p th + 1 \<and>
           prog_produced p' = prog_produced p @ [thread_id th * 100 + prog_i p th]"
proof -
  from assms(5) obtain e m where e: "sem_wait (sem_empty (prog_shared p)) = Some e"
    and m: "sem_wait (sem_mutex (prog_shared p)) = Some m"
    and inb: "0 \<le> sem_in (prog_shared p)" "sem_in (prog_shared p) < int (length (sem_buffer (prog_shared p)))"
    by (auto simp: sem_producer_iter_def split: option.splits if_splits)
  from inb assms(4) have "sem_in (prog_shared p) \<noteq> INT_MAX"
    by (simp add: INT_MAX_def BUFFER_SIZE_def)
  with assms e m inb show ?thesis
    by (auto simp: sem_producer_iter_def sem_stmt_def Let_def returned_def
        intro!: sem_state.equality)
qed

lemma sem_consumer_iter_statements:
  assumes "\<not> is_producer th" "prog_pc p th = WaitSlot" "prog_i p th < sem_NUM_ITEMS sdiv 2"
    and "int (length (sem_buffer (prog_shared p))) = BUFFER_SIZE"
    and "sem_consumer_iter (prog_shared p) = Returns (s', x)"
  shows "\<exists>p'. sem_interleave [th, th, th, th, th, th] p = Inr p' \<and> prog_shared p' = s' \<and>
           prog_pc p' th = WaitSlot \<and> prog_i p' th = prog_i p th + 1 \<and>
           prog_consumed p' = prog_consumed p @ [x]"
proof -
  from assms(5) obtain f m where f: "sem_wait (sem_full (prog_shared p)) = Some f"
    and m: "sem_wait (sem_mutex (prog_shared p)) = Some m"
    and inb: "0 \<le> sem_out (prog_shared p)" "sem_out (prog_shared p) < int (length (sem_buffer (prog_shared p)))"
    by (auto simp: sem_consumer_iter_def split: option.splits if_splits)
  from inb assms(4) have "sem_out (prog_shared p) \<noteq> INT_MAX"
    by (simp add: INT_MAX_def BUFFER_SIZE_def)
  with assms f m inb show ?thesis
    by (auto simp: sem_consumer_iter_def sem_stmt_def Let_def returned_def
        intro!: sem_state.equality)
qed

text \<open>
  Where \<open>sem_producer_iter\<close> blocks, the thread given six turns is still waiting: at the
  top of its loop with nothing changed when \<open>empty\<close> is 0, and otherwise in
  \<open>sem_wait(&mutex)\<close> with its permit of \<open>empty\<close> taken. Likewise for a consumer and
  \<open>full\<close>.
\<close>

lemma sem_producer_iter_blocked:
  assumes "is_producer th" "prog_pc p th = WaitSlot" "prog_i p th < sem_NUM_ITEMS sdiv 2"
    and "sem_producer_iter (prog_shared p) (thread_id th * 100 + prog_i p th) = Blocks"
  shows "sem_interleave [th, th, th, th, th, th] p =
     (if sem_empty (prog_shared p) = 0 then Inr p
      else Inr (p\<lparr>prog_shared := (prog_shared p)\<lparr>sem_empty := sem_empty (prog_shared p) - 1\<rparr>,
                  prog_item := (prog_item p)(th := thread_id th * 100 + prog_i p th),
                  prog_pc := (prog_pc p)(th := WaitMutex)\<rparr>))"
  using assms
  by (auto simp: sem_producer_iter_def sem_stmt_def Let_def returned_def sem_wait_def
      split: if_splits)

lemma sem_consumer_iter_blocked:
  assumes "\<not> is_producer th" "prog_pc p th = WaitSlot" "prog_i p th < sem_NUM_ITEMS sdiv 2"
    and "sem_consumer_iter (prog_shared p) = Blocks"
  shows "sem_interleave [th, th, th, th, th, th] p =
     (if sem_full (prog_shared p) = 0 then Inr p
      else Inr (p\<lparr>prog_shared := (prog_shared p)\<lparr>sem_full := sem_full (prog_shared p) - 1\<rparr>,
                  prog_pc := (prog_pc p)(th := WaitMutex)\<rparr>))"
  using assms
  by (auto simp: sem_consumer_iter_def sem_stmt_def Let_def returned_def sem_wait_def
      split: if_splits)

text \<open>
  The net effect of the six statements of a put, and of a take, when the thread runs them
  with no other thread in between, from a state that has a permit for it and the mutex
  free.
\<close>

lemma sem_put_alone:
  assumes "is_producer th" "prog_pc p th = WaitSlot" "prog_i p th < sem_NUM_ITEMS sdiv 2"
    and "0 < sem_empty (prog_shared p)" "sem_mutex (prog_shared p) = 1"
    and "int (sem_full (prog_shared p)) < BUFFER_SIZE"
    and "int (length (sem_buffer (prog_shared p))) = BUFFER_SIZE"
  shows "sem_interleave [th, th, th, th, th, th] p =
     (if 0 \<le> sem_in (prog_shared p) \<and> sem_in (prog_shared p) < BUFFER_SIZE
      then Inr (p\<lparr>prog_shared := (prog_shared p)
                     \<lparr>sem_buffer := (sem_buffer (prog_shared p))
                        [nat (sem_in (prog_shared p)) := thread_id th * 100 + prog_i p th],
                      sem_in := (sem_in (prog_shared p) + 1) mod BUFFER_SIZE,
                      sem_empty := sem_empty (prog_shared p) - 1,
                      sem_full := sem_full (prog_shared p) + 1\<rparr>,
                  prog_i := (prog_i p)(th := prog_i p th + 1),
                  prog_item := (prog_item p)(th := thread_id th * 100 + prog_i p th),
                  prog_produced := prog_produced p @ [thread_id th * 100 + prog_i p th]\<rparr>)
      else Inl OutOfBounds)"
proof -
  from assms(6) have small: "int (sem_full (prog_shared p)) < SEM_VALUE_MAX"
    by (simp add: BUFFER_SIZE_def SEM_VALUE_MAX_def)
  have max: "sem_in (prog_shared p) < BUFFER_SIZE \<Longrightarrow> sem_in (prog_shared p) \<noteq> INT_MAX"
    by (simp add: INT_MAX_def BUFFER_SIZE_def)
  from assms small max show ?thesis
    by (auto simp: sem_stmt_def Let_def returned_def sem_wait_def sem_post_def
        SEM_VALUE_MAX_def advance_mod
        intro!: sem_state.equality sem_program.equality)
qed

lemma sem_take_alone:
  assumes "\<not> is_producer th" "prog_pc p th = WaitSlot" "prog_i p th < sem_NUM_ITEMS sdiv 2"
    and "0 < sem_full (prog_shared p)" "sem_mutex (prog_shared p) = 1"
    and "int (sem_empty (prog_shared p)) < BUFFER_SIZE"
    and "int (length (sem_buffer (prog_shared p))) = BUFFER_SIZE"
  shows "sem_interleave [th, th, th, th, th, th] p =
     (if 0 \<le> sem_out (prog_shared p) \<and> sem_out (prog_shared p) < BUFFER_SIZE
      then Inr (p\<lparr>prog_shared := (prog_shared p)
                     \<lparr>sem_out := (sem_out (prog_shared p) + 1) mod BUFFER_SIZE,
                      sem_empty := sem_empty (prog_shared p) + 1,
                      sem_full := sem_full (prog_shared p) - 1\<rparr>,
                  prog_i := (prog_i p)(th := prog_i p th + 1),
                  prog_item := (prog_item p)
                    (th := sem_buffer (prog_shared p) ! nat (sem_out (prog_shared p))),
                  prog_consumed := prog_consumed p
                    @ [sem_buffer (prog_shared p) ! nat (sem_out (prog_shared p))]\<rparr>)
      else Inl OutOfBounds)"
proof -
  from assms(6) have small: "int (sem_empty (prog_shared p)) < SEM_VALUE_MAX"
    by (simp add: BUFFER_SIZE_def SEM_VALUE_MAX_def)
  have max: "sem_out (prog_shared p) < BUFFER_SIZE \<Longrightarrow> sem_out (prog_shared p) \<noteq> INT_MAX"
    by (simp add: INT_MAX_def BUFFER_SIZE_def)
  from assms small max show ?thesis
    by (auto simp: sem_stmt_def Let_def returned_def sem_wait_def sem_post_def
        SEM_VALUE_MAX_def advance_mod
        intro!: sem_state.equality sem_program.equality)
qed

section \<open>The running semaphore program: mutual exclusion\<close>

text \<open>
  The buffer accesses and the cursor advances are made with the mutex semaphore held: no
  two threads are at such a statement at the same time.
\<close>

lemma critical_exclusive:
  assumes "prog_inv q" "prog_pc q th = Access \<or> prog_pc q th = Advance" "t \<noteq> th"
  shows "prog_pc q t \<noteq> Access \<and> prog_pc q t \<noteq> Advance"
proof -
  have ge: "0 \<le> in_critical c" "c = Access \<or> c = Advance \<Longrightarrow> in_critical c = 1" for c
    by (cases c; auto)+
  from assms(1) have "in_critical (prog_pc q Prod1) + in_critical (prog_pc q Prod2)
       + in_critical (prog_pc q Cons1) + in_critical (prog_pc q Cons2) \<le> 1"
    by (simp add: prog_inv_def)
  with assms(2,3) ge(2) [of "prog_pc q t"] ge(2) [of "prog_pc q th"]
    ge(1) [of "prog_pc q Prod1"] ge(1) [of "prog_pc q Prod2"]
    ge(1) [of "prog_pc q Cons1"] ge(1) [of "prog_pc q Cons2"]
  show ?thesis
    by (cases th; cases t) auto
qed

lemma sem_interleave_exclusive:
  "\<exists>q. sem_interleave sched sem_main_start = Inr q \<and>
     (\<forall>th t. (prog_pc q th = Access \<or> prog_pc q th = Advance) \<and> t \<noteq> th \<longrightarrow>
        prog_pc q t \<noteq> Access \<and> prog_pc q t \<noteq> Advance)"
proof -
  from prog_inv_start obtain q where "sem_interleave sched sem_main_start = Inr q" "prog_inv q"
    using sem_interleave_inv by blast
  then show ?thesis
    using critical_exclusive by blast
qed

section \<open>The running semaphore program as a run of the condition-variable queue\<close>












section \<open>Completed operations of the semaphore program\<close>





text \<open>
  After two puts of each producer, producer 2 takes the last permit of \<open>empty\<close>. Producer
  1 then waits at the top of its loop, with \<open>full\<close> at 4, where the put of the
  condition-variable program from the state with the same buffer, cursors and count
  inserts its item.
\<close>

lemma put_waits_for_reserved_slot:
  "\<exists>p p'. sem_interleave (replicate 12 Prod1 @ replicate 12 Prod2 @ [Prod2]) sem_main_start = Inr p \<and>
     prog_shared p = \<lparr>sem_buffer = [100, 101, 200, 201, 0], sem_in = 4, sem_out = 0,
                       sem_empty = 0, sem_full = 4, sem_mutex = 1\<rparr> \<and>
     prog_pc p Prod1 = WaitSlot \<and> prog_i p Prod1 = 2 \<and>
     sem_interleave [Prod1, Prod1, Prod1, Prod1, Prod1, Prod1] p = Inr p' \<and>
     prog_shared p' = prog_shared p \<and> prog_pc p' Prod1 = WaitSlot \<and> prog_i p' Prod1 = 2 \<and>
     cv_producer_iter (sem_abs (prog_shared p)) [] 102 =
       Returns \<lparr>cv_buffer = [100, 101, 200, 201, 102], cv_count = 5, cv_in = 0, cv_out = 0\<rparr>"
proof -
  have "case sem_interleave (replicate 12 Prod1 @ replicate 12 Prod2 @ [Prod2]) sem_main_start of
      Inl f \<Rightarrow> False
    | Inr p \<Rightarrow>
        prog_shared p = \<lparr>sem_buffer = [100, 101, 200, 201, 0], sem_in = 4, sem_out = 0,
                          sem_empty = 0, sem_full = 4, sem_mutex = 1\<rparr> \<and>
        prog_pc p Prod1 = WaitSlot \<and> prog_i p Prod1 = 2 \<and>
        (case sem_interleave [Prod1, Prod1, Prod1, Prod1, Prod1, Prod1] p of
           Inl f \<Rightarrow> False
         | Inr p' \<Rightarrow> prog_shared p' = prog_shared p \<and> prog_pc p' Prod1 = WaitSlot \<and>
             prog_i p' Prod1 = 2) \<and>
        cv_producer_iter (sem_abs (prog_shared p)) [] 102 =
          Returns \<lparr>cv_buffer = [100, 101, 200, 201, 102], cv_count = 5, cv_in = 0, cv_out = 0\<rparr>"
    by code_simp
  then show ?thesis
    by (auto split: sum.splits)
qed

section \<open>C1: FIFO delivery\<close>

text \<open>
  C1. For every interleaving of put and take attempts on the queue of the
  condition-variable program, started from the initial state, the run never leaves
  defined behaviour, and the n-th completed take returns the item of the n-th completed
  put (both counted in order of completion).
\<close>

theorem fifo_delivery:
  "\<exists>t. cv_run rs cv_start = Inr t \<and>
     (\<forall>n < length (cv_takes t). n < length (cv_puts t) \<and> cv_takes t ! n = cv_puts t ! n)"
proof -
  from cv_start_fifo obtain t where t: "cv_run rs cv_start = Inr t"
      "cv_puts t = cv_takes t @ cv_contents (cv_now t)"
    using cv_run_fifo [of cv_start rs] by blast
  from t(2) have "\<forall>n < length (cv_takes t). n < length (cv_puts t) \<and> cv_takes t ! n = cv_puts t ! n"
    by (simp add: nth_append)
  with t(1) show ?thesis by blast
qed

text \<open>
  Two producers (ids 1 and 2) and a consumer interleaved: the second take returns 201,
  the second item put.
\<close>

theorem fifo_delivery_witness:
  "\<exists>t. cv_run [Put 101, Put 201, Take, Put 102, Take] cv_start = Inr t \<and>
     (1::nat) < length (cv_takes t) \<and> 1 < length (cv_puts t) \<and>
     cv_takes t ! 1 = cv_puts t ! 1 \<and> cv_puts t ! 1 = 201"
proof -
  have run: "cv_run [Put 101, Put 201, Take, Put 102, Take] cv_start =
      Inr \<lparr>cv_now = \<lparr>cv_buffer = [101, 201, 102, 0, 0], cv_count = 1, cv_in = 3, cv_out = 2\<rparr>,
           cv_puts = [101, 201, 102], cv_takes = [101, 201]\<rparr>"
    by code_simp
  from fifo_delivery [of "[Put 101, Put 201, Take, Put 102, Take]"]
  obtain t where t: "cv_run [Put 101, Put 201, Take, Put 102, Take] cv_start = Inr t"
    and fifo: "\<forall>n < length (cv_takes t). n < length (cv_puts t) \<and> cv_takes t ! n = cv_puts t ! n"
    by blast
  from t have "Inr \<lparr>cv_now = \<lparr>cv_buffer = [101, 201, 102, 0, 0], cv_count = 1, cv_in = 3, cv_out = 2\<rparr>,
           cv_puts = [101, 201, 102], cv_takes = [101, 201]\<rparr> = (Inr t :: fault + cv_trace)"
    by (simp only: run)
  then have takes: "cv_takes t = [101, 201]" and puts: "cv_puts t = [101, 201, 102]"
    by auto
  from takes have "(1::nat) < length (cv_takes t)"
    by simp
  with fifo have "1 < length (cv_puts t) \<and> cv_takes t ! 1 = cv_puts t ! 1"
    by blast
  with t takes puts show ?thesis
    by simp
qed

section \<open>C2: the postcondition of put\<close>

text \<open>
  C2, as the claim states it, does not hold of the semaphore program, whose put (lines
  33-41) is six statements of which only the write and the advance of \<open>in\<close> are under the
  mutex semaphore. When producer 1 has run five of them, alone, from the initial state, its
  item 100 is in \<open>buffer[0]\<close> and \<open>in\<close> is 1, but \<open>full\<close>, the count of that program, is
  still 0: the write, the advance and the increment are not one transition. And when
  producer 1 has only taken its permit of \<open>empty\<close> (\<open>in\<close> is 0) and producer 2 then
  completes a put, producer 1 writes its item into \<open>buffer[1]\<close>, not into the slot \<open>in\<close>
  pointed at when its put proceeded.
\<close>

theorem put_atomic_counterexample:
  "(\<exists>p. sem_interleave [Prod1, Prod1, Prod1, Prod1, Prod1] sem_main_start = Inr p \<and>
      prog_pc p Prod1 = PostSlot \<and>
      prog_shared p = \<lparr>sem_buffer = [100, 0, 0, 0, 0], sem_in = 1, sem_out = 0,
                        sem_empty = 4, sem_full = 0, sem_mutex = 1\<rparr>) \<and>
   (\<exists>p. sem_interleave [Prod1] sem_main_start = Inr p \<and>
      prog_pc p Prod1 = WaitMutex \<and>
      prog_shared p = \<lparr>sem_buffer = [0, 0, 0, 0, 0], sem_in = 0, sem_out = 0,
                        sem_empty = 4, sem_full = 0, sem_mutex = 1\<rparr>) \<and>
   (\<exists>p. sem_interleave ([Prod1] @ [Prod2, Prod2, Prod2, Prod2, Prod2, Prod2]
                          @ [Prod1, Prod1, Prod1, Prod1, Prod1]) sem_main_start = Inr p \<and>
      prog_produced p = [200, 100] \<and>
      prog_shared p = \<lparr>sem_buffer = [200, 100, 0, 0, 0], sem_in = 2, sem_out = 0,
                        sem_empty = 3, sem_full = 2, sem_mutex = 1\<rparr>)"
proof -
  have "case sem_interleave [Prod1, Prod1, Prod1, Prod1, Prod1] sem_main_start of
      Inl f \<Rightarrow> False
    | Inr p \<Rightarrow> prog_pc p Prod1 = PostSlot \<and>
        prog_shared p = \<lparr>sem_buffer = [100, 0, 0, 0, 0], sem_in = 1, sem_out = 0,
                        sem_empty = 4, sem_full = 0, sem_mutex = 1\<rparr>"
    by code_simp
  moreover have "case sem_interleave [Prod1] sem_main_start of
      Inl f \<Rightarrow> False
    | Inr p \<Rightarrow> prog_pc p Prod1 = WaitMutex \<and>
        prog_shared p = \<lparr>sem_buffer = [0, 0, 0, 0, 0], sem_in = 0, sem_out = 0,
                        sem_empty = 4, sem_full = 0, sem_mutex = 1\<rparr>"
    by code_simp
  moreover have "case sem_interleave ([Prod1] @ [Prod2, Prod2, Prod2, Prod2, Prod2, Prod2]
                          @ [Prod1, Prod1, Prod1, Prod1, Prod1]) sem_main_start of
      Inl f \<Rightarrow> False
    | Inr p \<Rightarrow> prog_produced p = [200, 100] \<and>
        prog_shared p = \<lparr>sem_buffer = [200, 100, 0, 0, 0], sem_in = 2, sem_out = 0,
                        sem_empty = 3, sem_full = 2, sem_mutex = 1\<rparr>"
    by code_simp
  ultimately show ?thesis
    by (auto split: sum.splits)
qed

text \<open>
  C2, amended. In the condition-variable program the put from a state with
  \<open>count < BUFFER_SIZE\<close> does not wait, whatever wakes follow, and is one transition of
  the state, made with the mutex held: it writes the item into \<open>buffer[in]\<close>, sets \<open>in\<close> to
  \<open>(in + 1) mod BUFFER_SIZE\<close>, increments \<open>count\<close> by one and changes nothing else. (With
  \<open>in\<close> outside the array, which no reachable state has, the write is undefined
  behaviour.) In the semaphore program, whose count is the value of \<open>full\<close>, the put is
  six statements. Run by a producer with no other thread in between, from a state with a
  free slot and the mutex free, they have that effect together: the item is written into
  \<open>buffer[in]\<close>, \<open>in\<close> is advanced by one modulo \<open>BUFFER_SIZE\<close>, one permit has moved
  from \<open>empty\<close> to \<open>full\<close>, and apart from the thread's own \<open>i\<close> and \<open>item\<close> nothing
  else has changed. Under every interleaving, while a producer is at its write or at its
  advance of \<open>in\<close> no other thread is at a buffer access or a cursor advance.
\<close>

theorem put_postcondition:
  "(cv_count s < BUFFER_SIZE \<longrightarrow>
      cv_producer_iter s wakes item =
        (if 0 \<le> cv_in s \<and> cv_in s < int (length (cv_buffer s))
         then Returns (s\<lparr>cv_buffer := (cv_buffer s)[nat (cv_in s) := item],
                         cv_in := (cv_in s + 1) mod BUFFER_SIZE,
                         cv_count := cv_count s + 1\<rparr>)
         else Faults OutOfBounds))
   \<and> (is_producer th \<and> prog_pc p th = WaitSlot \<and> prog_i p th < sem_NUM_ITEMS sdiv 2 \<and>
      0 < sem_empty (prog_shared p) \<and> sem_mutex (prog_shared p) = 1 \<and>
      int (sem_full (prog_shared p)) < BUFFER_SIZE \<and>
      int (length (sem_buffer (prog_shared p))) = BUFFER_SIZE \<longrightarrow>
      sem_interleave [th, th, th, th, th, th] p =
        (if 0 \<le> sem_in (prog_shared p) \<and> sem_in (prog_shared p) < BUFFER_SIZE
         then Inr (p\<lparr>prog_shared := (prog_shared p)
                        \<lparr>sem_buffer := (sem_buffer (prog_shared p))
                           [nat (sem_in (prog_shared p)) := thread_id th * 100 + prog_i p th],
                         sem_in := (sem_in (prog_shared p) + 1) mod BUFFER_SIZE,
                         sem_empty := sem_empty (prog_shared p) - 1,
                         sem_full := sem_full (prog_shared p) + 1\<rparr>,
                     prog_i := (prog_i p)(th := prog_i p th + 1),
                     prog_item := (prog_item p)(th := thread_id th * 100 + prog_i p th),
                     prog_produced := prog_produced p @ [thread_id th * 100 + prog_i p th]\<rparr>)
         else Inl OutOfBounds))
   \<and> (\<exists>q. sem_interleave sched sem_main_start = Inr q \<and>
        (\<forall>t u. is_producer t \<and> (prog_pc q t = Access \<or> prog_pc q t = Advance) \<and> u \<noteq> t \<longrightarrow>
           prog_pc q u \<noteq> Access \<and> prog_pc q u \<noteq> Advance))"
proof (intro conjI impI)
  assume a: "cv_count s < BUFFER_SIZE"
  then have w: "cv_wait_not_full s wakes = Some s"
    by (cases wakes) simp_all
  from a have "cv_count s \<noteq> INT_MAX"
    by (simp add: BUFFER_SIZE_def INT_MAX_def)
  with w show "cv_producer_iter s wakes item =
        (if 0 \<le> cv_in s \<and> cv_in s < int (length (cv_buffer s))
         then Returns (s\<lparr>cv_buffer := (cv_buffer s)[nat (cv_in s) := item],
                         cv_in := (cv_in s + 1) mod BUFFER_SIZE,
                         cv_count := cv_count s + 1\<rparr>)
         else Faults OutOfBounds)"
    by (simp add: cv_producer_iter_def cv_put_def advance_mod)
next
  assume "is_producer th \<and> prog_pc p th = WaitSlot \<and> prog_i p th < sem_NUM_ITEMS sdiv 2 \<and>
      0 < sem_empty (prog_shared p) \<and> sem_mutex (prog_shared p) = 1 \<and>
      int (sem_full (prog_shared p)) < BUFFER_SIZE \<and>
      int (length (sem_buffer (prog_shared p))) = BUFFER_SIZE"
  then show "sem_interleave [th, th, th, th, th, th] p =
        (if 0 \<le> sem_in (prog_shared p) \<and> sem_in (prog_shared p) < BUFFER_SIZE
         then Inr (p\<lparr>prog_shared := (prog_shared p)
                        \<lparr>sem_buffer := (sem_buffer (prog_shared p))
                           [nat (sem_in (prog_shared p)) := thread_id th * 100 + prog_i p th],
                         sem_in := (sem_in (prog_shared p) + 1) mod BUFFER_SIZE,
                         sem_empty := sem_empty (prog_shared p) - 1,
                         sem_full := sem_full (prog_shared p) + 1\<rparr>,
                     prog_i := (prog_i p)(th := prog_i p th + 1),
                     prog_item := (prog_item p)(th := thread_id th * 100 + prog_i p th),
                     prog_produced := prog_produced p @ [thread_id th * 100 + prog_i p th]\<rparr>)
         else Inl OutOfBounds)"
    by (intro sem_put_alone) simp_all
next
  from sem_interleave_exclusive [of sched]
  show "\<exists>q. sem_interleave sched sem_main_start = Inr q \<and>
        (\<forall>t u. is_producer t \<and> (prog_pc q t = Access \<or> prog_pc q t = Advance) \<and> u \<noteq> t \<longrightarrow>
           prog_pc q u \<noteq> Access \<and> prog_pc q u \<noteq> Advance)"
    by blast
qed

text \<open>
  The first put of producer 1 (item 100) into the initial state of either program; and
  producer 2, which has taken its permit while producer 1 is at its write, waiting for
  the mutex.
\<close>

theorem put_postcondition_witness:
  "cv_count cv_init < BUFFER_SIZE \<and>
   cv_producer_iter cv_init [] 100 =
     Returns \<lparr>cv_buffer = [100, 0, 0, 0, 0], cv_count = 1, cv_in = 1, cv_out = 0\<rparr> \<and>
   is_producer Prod1 \<and> prog_pc sem_main_start Prod1 = WaitSlot \<and>
   prog_i sem_main_start Prod1 < sem_NUM_ITEMS sdiv 2 \<and>
   0 < sem_empty (prog_shared sem_main_start) \<and> sem_mutex (prog_shared sem_main_start) = 1 \<and>
   int (sem_full (prog_shared sem_main_start)) < BUFFER_SIZE \<and>
   int (length (sem_buffer (prog_shared sem_main_start))) = BUFFER_SIZE \<and>
   (\<exists>p'. sem_interleave [Prod1, Prod1, Prod1, Prod1, Prod1, Prod1] sem_main_start = Inr p' \<and>
      prog_shared p' = \<lparr>sem_buffer = [100, 0, 0, 0, 0], sem_in = 1, sem_out = 0,
                         sem_empty = 4, sem_full = 1, sem_mutex = 1\<rparr> \<and>
      prog_i p' Prod1 = 1 \<and> prog_pc p' Prod1 = WaitSlot \<and> prog_produced p' = [100]) \<and>
   (\<exists>q. sem_interleave [Prod1, Prod1, Prod2, Prod2, Prod2] sem_main_start = Inr q \<and>
      prog_pc q Prod1 = Access \<and> prog_pc q Prod2 = WaitMutex)"
proof -
  have pre: "is_producer Prod1 \<and> prog_pc sem_main_start Prod1 = WaitSlot \<and>
      prog_i sem_main_start Prod1 < sem_NUM_ITEMS sdiv 2 \<and>
      0 < sem_empty (prog_shared sem_main_start) \<and> sem_mutex (prog_shared sem_main_start) = 1 \<and>
      int (sem_full (prog_shared sem_main_start)) < BUFFER_SIZE \<and>
      int (length (sem_buffer (prog_shared sem_main_start))) = BUFFER_SIZE"
    by (simp add: sem_main_start_def sem_init_eq sem_iterations BUFFER_SIZE_def)
  note inst = put_postcondition [of cv_init "[]" 100 Prod1 sem_main_start
      "[Prod1, Prod1, Prod2, Prod2, Prod2]"]
  from inst have cv: "cv_count cv_init < BUFFER_SIZE \<and>
      cv_producer_iter cv_init [] 100 =
        Returns \<lparr>cv_buffer = [100, 0, 0, 0, 0], cv_count = 1, cv_in = 1, cv_out = 0\<rparr>"
    by (simp add: cv_init_eq BUFFER_SIZE_def)
  from inst pre obtain r where run: "sem_interleave [Prod1, Prod1, Prod1, Prod1, Prod1, Prod1] sem_main_start = r"
    and r: "r = (if 0 \<le> sem_in (prog_shared sem_main_start) \<and> sem_in (prog_shared sem_main_start) < BUFFER_SIZE
         then Inr (sem_main_start\<lparr>prog_shared := (prog_shared sem_main_start)
                        \<lparr>sem_buffer := (sem_buffer (prog_shared sem_main_start))
                           [nat (sem_in (prog_shared sem_main_start)) := thread_id Prod1 * 100 + prog_i sem_main_start Prod1],
                         sem_in := (sem_in (prog_shared sem_main_start) + 1) mod BUFFER_SIZE,
                         sem_empty := sem_empty (prog_shared sem_main_start) - 1,
                         sem_full := sem_full (prog_shared sem_main_start) + 1\<rparr>,
                     prog_i := (prog_i sem_main_start)(Prod1 := prog_i sem_main_start Prod1 + 1),
                     prog_item := (prog_item sem_main_start)(Prod1 := thread_id Prod1 * 100 + prog_i sem_main_start Prod1),
                     prog_produced := prog_produced sem_main_start @ [thread_id Prod1 * 100 + prog_i sem_main_start Prod1]\<rparr>)
         else Inl OutOfBounds)"
    by blast
  have "\<exists>p'. r = Inr p' \<and>
      prog_shared p' = \<lparr>sem_buffer = [100, 0, 0, 0, 0], sem_in = 1, sem_out = 0,
                         sem_empty = 4, sem_full = 1, sem_mutex = 1\<rparr> \<and>
      prog_i p' Prod1 = 1 \<and> prog_pc p' Prod1 = WaitSlot \<and> prog_produced p' = [100]"
    unfolding r by (simp add: sem_main_start_def sem_init_eq BUFFER_SIZE_def)
  with run have "\<exists>p'. sem_interleave [Prod1, Prod1, Prod1, Prod1, Prod1, Prod1] sem_main_start = Inr p' \<and>
      prog_shared p' = \<lparr>sem_buffer = [100, 0, 0, 0, 0], sem_in = 1, sem_out = 0,
                         sem_empty = 4, sem_full = 1, sem_mutex = 1\<rparr> \<and>
      prog_i p' Prod1 = 1 \<and> prog_pc p' Prod1 = WaitSlot \<and> prog_produced p' = [100]"
    by (simp only:)
  moreover have "case sem_interleave [Prod1, Prod1, Prod2, Prod2, Prod2] sem_main_start of
      Inl f \<Rightarrow> False | Inr q \<Rightarrow> prog_pc q Prod1 = Access \<and> prog_pc q Prod2 = WaitMutex"
    by code_simp
  then have "\<exists>q. sem_interleave [Prod1, Prod1, Prod2, Prod2, Prod2] sem_main_start = Inr q \<and>
      prog_pc q Prod1 = Access \<and> prog_pc q Prod2 = WaitMutex"
    by (auto split: sum.splits)
  ultimately show ?thesis
    using cv pre by blast
qed


section \<open>C3: the postcondition of take\<close>

text \<open>
  C3, as the claim states it, does not hold of the semaphore program, whose take (lines
  53-61) is six statements of which only the read and the advance of \<open>out\<close> are under the
  mutex semaphore. After a put of producer 1, when consumer 1 has run the first statement
  of its take, \<open>full\<close>, the count of that program, is already 0 although the item is not
  read and \<open>out\<close> is still 0; when it has run five of them, the item is read and \<open>out\<close>
  is 1, but \<open>empty\<close> is still 4: the read, the advance and the decrement are not one
  transition. And when, after a put of each producer, consumer 1 has only taken its
  permit of \<open>full\<close> (\<open>out\<close> is 0, \<open>buffer[0]\<close> is 100) and consumer 2 then completes a
  take, consumer 1 returns 200, the item at \<open>buffer[1]\<close>, not the one \<open>out\<close> pointed at
  when its take proceeded.
\<close>

theorem take_atomic_counterexample:
  "(\<exists>p. sem_interleave ([Prod1, Prod1, Prod1, Prod1, Prod1, Prod1] @ [Cons1]) sem_main_start = Inr p \<and>
      prog_pc p Cons1 = WaitMutex \<and> prog_consumed p = [] \<and>
      prog_shared p = \<lparr>sem_buffer = [100, 0, 0, 0, 0], sem_in = 1, sem_out = 0,
                        sem_empty = 4, sem_full = 0, sem_mutex = 1\<rparr>) \<and>
   (\<exists>p. sem_interleave ([Prod1, Prod1, Prod1, Prod1, Prod1, Prod1]
                          @ [Cons1, Cons1, Cons1, Cons1, Cons1]) sem_main_start = Inr p \<and>
      prog_pc p Cons1 = PostSlot \<and> prog_consumed p = [100] \<and>
      prog_shared p = \<lparr>sem_buffer = [100, 0, 0, 0, 0], sem_in = 1, sem_out = 1,
                        sem_empty = 4, sem_full = 0, sem_mutex = 1\<rparr>) \<and>
   (\<exists>p. sem_interleave ([Prod1, Prod1, Prod1, Prod1, Prod1, Prod1]
                          @ [Prod2, Prod2, Prod2, Prod2, Prod2, Prod2] @ [Cons1]) sem_main_start = Inr p \<and>
      prog_pc p Cons1 = WaitMutex \<and>
      prog_shared p = \<lparr>sem_buffer = [100, 200, 0, 0, 0], sem_in = 2, sem_out = 0,
                        sem_empty = 3, sem_full = 1, sem_mutex = 1\<rparr>) \<and>
   (\<exists>p. sem_interleave ([Prod1, Prod1, Prod1, Prod1, Prod1, Prod1]
                          @ [Prod2, Prod2, Prod2, Prod2, Prod2, Prod2] @ [Cons1]
                          @ [Cons2, Cons2, Cons2, Cons2, Cons2, Cons2]
                          @ [Cons1, Cons1, Cons1, Cons1, Cons1]) sem_main_start = Inr p \<and>
      prog_item p Cons1 = 200 \<and> prog_item p Cons2 = 100 \<and> prog_consumed p = [100, 200])"
proof -
  have "case sem_interleave ([Prod1, Prod1, Prod1, Prod1, Prod1, Prod1] @ [Cons1]) sem_main_start of
      Inl f \<Rightarrow> False
    | Inr p \<Rightarrow> prog_pc p Cons1 = WaitMutex \<and> prog_consumed p = [] \<and>
        prog_shared p = \<lparr>sem_buffer = [100, 0, 0, 0, 0], sem_in = 1, sem_out = 0,
                        sem_empty = 4, sem_full = 0, sem_mutex = 1\<rparr>"
    by code_simp
  moreover have "case sem_interleave ([Prod1, Prod1, Prod1, Prod1, Prod1, Prod1]
                          @ [Cons1, Cons1, Cons1, Cons1, Cons1]) sem_main_start of
      Inl f \<Rightarrow> False
    | Inr p \<Rightarrow> prog_pc p Cons1 = PostSlot \<and> prog_consumed p = [100] \<and>
        prog_shared p = \<lparr>sem_buffer = [100, 0, 0, 0, 0], sem_in = 1, sem_out = 1,
                        sem_empty = 4, sem_full = 0, sem_mutex = 1\<rparr>"
    by code_simp
  moreover have "case sem_interleave ([Prod1, Prod1, Prod1, Prod1, Prod1, Prod1]
                          @ [Prod2, Prod2, Prod2, Prod2, Prod2, Prod2] @ [Cons1]) sem_main_start of
      Inl f \<Rightarrow> False
    | Inr p \<Rightarrow> prog_pc p Cons1 = WaitMutex \<and>
        prog_shared p = \<lparr>sem_buffer = [100, 200, 0, 0, 0], sem_in = 2, sem_out = 0,
                        sem_empty = 3, sem_full = 1, sem_mutex = 1\<rparr>"
    by code_simp
  moreover have "case sem_interleave ([Prod1, Prod1, Prod1, Prod1, Prod1, Prod1]
                          @ [Prod2, Prod2, Prod2, Prod2, Prod2, Prod2] @ [Cons1]
                          @ [Cons2, Cons2, Cons2, Cons2, Cons2, Cons2]
                          @ [Cons1, Cons1, Cons1, Cons1, Cons1]) sem_main_start of
      Inl f \<Rightarrow> False
    | Inr p \<Rightarrow> prog_item p Cons1 = 200 \<and> prog_item p Cons2 = 100 \<and> prog_consumed p = [100, 200]"
    by code_simp
  ultimately show ?thesis
    by (auto split: sum.splits)
qed

text \<open>
  C3, amended. In the condition-variable program the take from a state with \<open>count > 0\<close>
  does not wait, whatever wakes follow, and is one transition of the state, made with
  the mutex held: it returns the item at \<open>buffer[out]\<close>, sets \<open>out\<close> to
  \<open>(out + 1) mod BUFFER_SIZE\<close>, decrements \<open>count\<close> by one and changes nothing else. (With
  \<open>out\<close> outside the array, which no reachable state has, the read is undefined
  behaviour.) In the semaphore program the take is six statements. Run by a consumer with
  no other thread in between, from a state with a filled slot and the mutex free, they
  have that effect together: the item at \<open>buffer[out]\<close> is read, \<open>out\<close> is advanced by
  one modulo \<open>BUFFER_SIZE\<close>, one permit has moved from \<open>full\<close> to \<open>empty\<close>, and apart
  from the thread's own \<open>i\<close> and \<open>item\<close> nothing else has changed. Under every
  interleaving, while a consumer is at its read or at its advance of \<open>out\<close> no other
  thread is at a buffer access or a cursor advance.
\<close>

theorem take_postcondition:
  "(0 < cv_count s \<longrightarrow>
      cv_consumer_iter s wakes =
        (if 0 \<le> cv_out s \<and> cv_out s < int (length (cv_buffer s))
         then Returns (s\<lparr>cv_out := (cv_out s + 1) mod BUFFER_SIZE,
                         cv_count := cv_count s - 1\<rparr>,
                       cv_buffer s ! nat (cv_out s))
         else Faults OutOfBounds))
   \<and> (\<not> is_producer th \<and> prog_pc p th = WaitSlot \<and> prog_i p th < sem_NUM_ITEMS sdiv 2 \<and>
      0 < sem_full (prog_shared p) \<and> sem_mutex (prog_shared p) = 1 \<and>
      int (sem_empty (prog_shared p)) < BUFFER_SIZE \<and>
      int (length (sem_buffer (prog_shared p))) = BUFFER_SIZE \<longrightarrow>
      sem_interleave [th, th, th, th, th, th] p =
        (if 0 \<le> sem_out (prog_shared p) \<and> sem_out (prog_shared p) < BUFFER_SIZE
         then Inr (p\<lparr>prog_shared := (prog_shared p)
                        \<lparr>sem_out := (sem_out (prog_shared p) + 1) mod BUFFER_SIZE,
                         sem_empty := sem_empty (prog_shared p) + 1,
                         sem_full := sem_full (prog_shared p) - 1\<rparr>,
                     prog_i := (prog_i p)(th := prog_i p th + 1),
                     prog_item := (prog_item p)
                       (th := sem_buffer (prog_shared p) ! nat (sem_out (prog_shared p))),
                     prog_consumed := prog_consumed p
                       @ [sem_buffer (prog_shared p) ! nat (sem_out (prog_shared p))]\<rparr>)
         else Inl OutOfBounds))
   \<and> (\<exists>q. sem_interleave sched sem_main_start = Inr q \<and>
        (\<forall>t u. \<not> is_producer t \<and> (prog_pc q t = Access \<or> prog_pc q t = Advance) \<and> u \<noteq> t \<longrightarrow>
           prog_pc q u \<noteq> Access \<and> prog_pc q u \<noteq> Advance))"
proof (intro conjI impI)
  assume a: "0 < cv_count s"
  then have w: "cv_wait_not_empty s wakes = Some s"
    by (cases wakes) simp_all
  from a have "cv_count s \<noteq> INT_MIN"
    by (simp add: INT_MIN_def)
  with w show "cv_consumer_iter s wakes =
        (if 0 \<le> cv_out s \<and> cv_out s < int (length (cv_buffer s))
         then Returns (s\<lparr>cv_out := (cv_out s + 1) mod BUFFER_SIZE,
                         cv_count := cv_count s - 1\<rparr>,
                       cv_buffer s ! nat (cv_out s))
         else Faults OutOfBounds)"
    by (simp add: cv_consumer_iter_def cv_take_def advance_mod)
next
  assume "\<not> is_producer th \<and> prog_pc p th = WaitSlot \<and> prog_i p th < sem_NUM_ITEMS sdiv 2 \<and>
      0 < sem_full (prog_shared p) \<and> sem_mutex (prog_shared p) = 1 \<and>
      int (sem_empty (prog_shared p)) < BUFFER_SIZE \<and>
      int (length (sem_buffer (prog_shared p))) = BUFFER_SIZE"
  then show "sem_interleave [th, th, th, th, th, th] p =
        (if 0 \<le> sem_out (prog_shared p) \<and> sem_out (prog_shared p) < BUFFER_SIZE
         then Inr (p\<lparr>prog_shared := (prog_shared p)
                        \<lparr>sem_out := (sem_out (prog_shared p) + 1) mod BUFFER_SIZE,
                         sem_empty := sem_empty (prog_shared p) + 1,
                         sem_full := sem_full (prog_shared p) - 1\<rparr>,
                     prog_i := (prog_i p)(th := prog_i p th + 1),
                     prog_item := (prog_item p)
                       (th := sem_buffer (prog_shared p) ! nat (sem_out (prog_shared p))),
                     prog_consumed := prog_consumed p
                       @ [sem_buffer (prog_shared p) ! nat (sem_out (prog_shared p))]\<rparr>)
         else Inl OutOfBounds)"
    by (intro sem_take_alone) simp_all
next
  from sem_interleave_exclusive [of sched]
  show "\<exists>q. sem_interleave sched sem_main_start = Inr q \<and>
        (\<forall>t u. \<not> is_producer t \<and> (prog_pc q t = Access \<or> prog_pc q t = Advance) \<and> u \<noteq> t \<longrightarrow>
           prog_pc q u \<noteq> Access \<and> prog_pc q u \<noteq> Advance)"
    by blast
qed

text \<open>
  A take from the full buffer of five items, cursors at 0, in the condition-variable
  program; in the semaphore program the first take of consumer 1 after the first put of
  producer 1, which returns 100; and consumer 2, which has taken its permit while
  consumer 1 is at its read, waiting for the mutex.
\<close>

theorem take_postcondition_witness:
  "(0::int) < cv_count \<lparr>cv_buffer = [1, 2, 3, 4, 5], cv_count = 5, cv_in = 0, cv_out = 0\<rparr> \<and>
   cv_consumer_iter \<lparr>cv_buffer = [1, 2, 3, 4, 5], cv_count = 5, cv_in = 0, cv_out = 0\<rparr> [] =
     Returns (\<lparr>cv_buffer = [1, 2, 3, 4, 5], cv_count = 4, cv_in = 0, cv_out = 1\<rparr>, 1) \<and>
   (\<exists>p p'. sem_interleave [Prod1, Prod1, Prod1, Prod1, Prod1, Prod1] sem_main_start = Inr p \<and>
      \<not> is_producer Cons1 \<and> prog_pc p Cons1 = WaitSlot \<and> prog_i p Cons1 < sem_NUM_ITEMS sdiv 2 \<and>
      0 < sem_full (prog_shared p) \<and> sem_mutex (prog_shared p) = 1 \<and>
      int (sem_empty (prog_shared p)) < BUFFER_SIZE \<and>
      int (length (sem_buffer (prog_shared p))) = BUFFER_SIZE \<and>
      sem_interleave [Cons1, Cons1, Cons1, Cons1, Cons1, Cons1] p = Inr p' \<and>
      prog_shared p' = \<lparr>sem_buffer = [100, 0, 0, 0, 0], sem_in = 1, sem_out = 1,
                         sem_empty = 5, sem_full = 0, sem_mutex = 1\<rparr> \<and>
      prog_i p' Cons1 = 1 \<and> prog_pc p' Cons1 = WaitSlot \<and>
      prog_item p' Cons1 = 100 \<and> prog_consumed p' = [100]) \<and>
   (\<exists>q. sem_interleave ([Prod1, Prod1, Prod1, Prod1, Prod1, Prod1]
                          @ [Prod2, Prod2, Prod2, Prod2, Prod2, Prod2]
                          @ [Cons1, Cons1, Cons2, Cons2, Cons2]) sem_main_start = Inr q \<and>
      prog_pc q Cons1 = Access \<and> prog_pc q Cons2 = WaitMutex)"
proof -
  let ?p = "sem_main_start\<lparr>prog_shared := \<lparr>sem_buffer = [100, 0, 0, 0, 0], sem_in = 1, sem_out = 0,
                sem_empty = 4, sem_full = 1, sem_mutex = 1\<rparr>,
              prog_i := (prog_i sem_main_start)(Prod1 := 1),
              prog_item := (prog_item sem_main_start)(Prod1 := 100),
              prog_produced := [100]\<rparr>"
  have "sem_interleave [Prod1, Prod1, Prod1, Prod1, Prod1, Prod1] sem_main_start =
     (if 0 \<le> sem_in (prog_shared sem_main_start) \<and> sem_in (prog_shared sem_main_start) < BUFFER_SIZE
      then Inr (sem_main_start\<lparr>prog_shared := (prog_shared sem_main_start)
                     \<lparr>sem_buffer := (sem_buffer (prog_shared sem_main_start))
                        [nat (sem_in (prog_shared sem_main_start)) := thread_id Prod1 * 100 + prog_i sem_main_start Prod1],
                      sem_in := (sem_in (prog_shared sem_main_start) + 1) mod BUFFER_SIZE,
                      sem_empty := sem_empty (prog_shared sem_main_start) - 1,
                      sem_full := sem_full (prog_shared sem_main_start) + 1\<rparr>,
                  prog_i := (prog_i sem_main_start)(Prod1 := prog_i sem_main_start Prod1 + 1),
                  prog_item := (prog_item sem_main_start)(Prod1 := thread_id Prod1 * 100 + prog_i sem_main_start Prod1),
                  prog_produced := prog_produced sem_main_start @ [thread_id Prod1 * 100 + prog_i sem_main_start Prod1]\<rparr>)
      else Inl OutOfBounds)"
    by (rule sem_put_alone)
      (simp_all add: sem_main_start_def sem_init_eq sem_iterations BUFFER_SIZE_def)
  also have "\<dots> = Inr ?p"
    by (simp add: sem_main_start_def sem_init_eq BUFFER_SIZE_def)
  finally have run: "sem_interleave [Prod1, Prod1, Prod1, Prod1, Prod1, Prod1] sem_main_start = Inr ?p" .
  have pre: "\<not> is_producer Cons1 \<and> prog_pc ?p Cons1 = WaitSlot \<and> prog_i ?p Cons1 < sem_NUM_ITEMS sdiv 2 \<and>
      0 < sem_full (prog_shared ?p) \<and> sem_mutex (prog_shared ?p) = 1 \<and>
      int (sem_empty (prog_shared ?p)) < BUFFER_SIZE \<and>
      int (length (sem_buffer (prog_shared ?p))) = BUFFER_SIZE"
    by (simp add: sem_main_start_def sem_iterations BUFFER_SIZE_def)
  note inst = take_postcondition [of "\<lparr>cv_buffer = [1, 2, 3, 4, 5], cv_count = 5, cv_in = 0, cv_out = 0\<rparr>"
      "[]" Cons1 ?p "[Prod1, Prod1, Prod1, Prod1, Prod1, Prod1]
                          @ [Prod2, Prod2, Prod2, Prod2, Prod2, Prod2]
                          @ [Cons1, Cons1, Cons2, Cons2, Cons2]"]
  from inst have cv: "(0::int) < cv_count \<lparr>cv_buffer = [1, 2, 3, 4, 5], cv_count = 5, cv_in = 0, cv_out = 0\<rparr> \<and>
      cv_consumer_iter \<lparr>cv_buffer = [1, 2, 3, 4, 5], cv_count = 5, cv_in = 0, cv_out = 0\<rparr> [] =
        Returns (\<lparr>cv_buffer = [1, 2, 3, 4, 5], cv_count = 4, cv_in = 0, cv_out = 1\<rparr>, 1)"
    by (simp add: BUFFER_SIZE_def)
  from inst pre obtain r where take: "sem_interleave [Cons1, Cons1, Cons1, Cons1, Cons1, Cons1] ?p = r"
    and r: "r = (if 0 \<le> sem_out (prog_shared ?p) \<and> sem_out (prog_shared ?p) < BUFFER_SIZE
         then Inr (?p\<lparr>prog_shared := (prog_shared ?p)
                        \<lparr>sem_out := (sem_out (prog_shared ?p) + 1) mod BUFFER_SIZE,
                         sem_empty := sem_empty (prog_shared ?p) + 1,
                         sem_full := sem_full (prog_shared ?p) - 1\<rparr>,
                     prog_i := (prog_i ?p)(Cons1 := prog_i ?p Cons1 + 1),
                     prog_item := (prog_item ?p)
                       (Cons1 := sem_buffer (prog_shared ?p) ! nat (sem_out (prog_shared ?p))),
                     prog_consumed := prog_consumed ?p
                       @ [sem_buffer (prog_shared ?p) ! nat (sem_out (prog_shared ?p))]\<rparr>)
         else Inl OutOfBounds)"
    by blast
  have "\<exists>p'. r = Inr p' \<and>
      prog_shared p' = \<lparr>sem_buffer = [100, 0, 0, 0, 0], sem_in = 1, sem_out = 1,
                         sem_empty = 5, sem_full = 0, sem_mutex = 1\<rparr> \<and>
      prog_i p' Cons1 = 1 \<and> prog_pc p' Cons1 = WaitSlot \<and>
      prog_item p' Cons1 = 100 \<and> prog_consumed p' = [100]"
    unfolding r by (simp add: sem_main_start_def BUFFER_SIZE_def)
  with take have "\<exists>p'. sem_interleave [Cons1, Cons1, Cons1, Cons1, Cons1, Cons1] ?p = Inr p' \<and>
      prog_shared p' = \<lparr>sem_buffer = [100, 0, 0, 0, 0], sem_in = 1, sem_out = 1,
                         sem_empty = 5, sem_full = 0, sem_mutex = 1\<rparr> \<and>
      prog_i p' Cons1 = 1 \<and> prog_pc p' Cons1 = WaitSlot \<and>
      prog_item p' Cons1 = 100 \<and> prog_consumed p' = [100]"
    by (simp only:)
  with run pre have sem: "\<exists>p p'. sem_interleave [Prod1, Prod1, Prod1, Prod1, Prod1, Prod1] sem_main_start = Inr p \<and>
      \<not> is_producer Cons1 \<and> prog_pc p Cons1 = WaitSlot \<and> prog_i p Cons1 < sem_NUM_ITEMS sdiv 2 \<and>
      0 < sem_full (prog_shared p) \<and> sem_mutex (prog_shared p) = 1 \<and>
      int (sem_empty (prog_shared p)) < BUFFER_SIZE \<and>
      int (length (sem_buffer (prog_shared p))) = BUFFER_SIZE \<and>
      sem_interleave [Cons1, Cons1, Cons1, Cons1, Cons1, Cons1] p = Inr p' \<and>
      prog_shared p' = \<lparr>sem_buffer = [100, 0, 0, 0, 0], sem_in = 1, sem_out = 1,
                         sem_empty = 5, sem_full = 0, sem_mutex = 1\<rparr> \<and>
      prog_i p' Cons1 = 1 \<and> prog_pc p' Cons1 = WaitSlot \<and>
      prog_item p' Cons1 = 100 \<and> prog_consumed p' = [100]"
    by blast
  have "case sem_interleave ([Prod1, Prod1, Prod1, Prod1, Prod1, Prod1]
                          @ [Prod2, Prod2, Prod2, Prod2, Prod2, Prod2]
                          @ [Cons1, Cons1, Cons2, Cons2, Cons2]) sem_main_start of
      Inl f \<Rightarrow> False | Inr q \<Rightarrow> prog_pc q Cons1 = Access \<and> prog_pc q Cons2 = WaitMutex"
    by code_simp
  then have "\<exists>q. sem_interleave ([Prod1, Prod1, Prod1, Prod1, Prod1, Prod1]
                          @ [Prod2, Prod2, Prod2, Prod2, Prod2, Prod2]
                          @ [Cons1, Cons1, Cons2, Cons2, Cons2]) sem_main_start = Inr q \<and>
      prog_pc q Cons1 = Access \<and> prog_pc q Cons2 = WaitMutex"
    by (auto split: sum.splits)
  with cv sem show ?thesis
    by blast
qed

section \<open>C4: the capacity bound\<close>

text \<open>
  C4. In every state that completed puts and takes reach from the initial one,
  \<open>0 \<le> count \<le> BUFFER_SIZE\<close>. In the semaphore program, where the number of occupied
  slots is the value of \<open>full\<close>, that value is at most \<open>BUFFER_SIZE\<close> and \<open>empty\<close> holds
  the remaining permits. The bound also holds in the middle of the operations: under
  every interleaving of the statements of the four threads of the semaphore program,
  \<open>full\<close> is at most \<open>BUFFER_SIZE\<close> and the number of items written and not yet read is
  between 0 and \<open>BUFFER_SIZE\<close>.
\<close>

theorem capacity_bound:
  "(cv_reachable s \<longrightarrow> 0 \<le> cv_count s \<and> cv_count s \<le> BUFFER_SIZE) \<and>
   (sem_reachable t \<longrightarrow> int (sem_full t) \<le> BUFFER_SIZE \<and>
      int (sem_empty t) + int (sem_full t) = BUFFER_SIZE) \<and>
   (\<exists>p. sem_interleave sched sem_main_start = Inr p \<and>
      int (sem_full (prog_shared p)) \<le> BUFFER_SIZE \<and>
      length (prog_consumed p) \<le> length (prog_produced p) \<and>
      int (length (prog_produced p)) - int (length (prog_consumed p)) \<le> BUFFER_SIZE)"
proof (intro conjI impI)
  from prog_inv_start obtain p where "sem_interleave sched sem_main_start = Inr p" "prog_inv p"
    using sem_interleave_inv by blast
  then show "\<exists>p. sem_interleave sched sem_main_start = Inr p \<and>
      int (sem_full (prog_shared p)) \<le> BUFFER_SIZE \<and>
      length (prog_consumed p) \<le> length (prog_produced p) \<and>
      int (length (prog_produced p)) - int (length (prog_consumed p)) \<le> BUFFER_SIZE"
    using prog_inv_full prog_inv_logs(1,3) by blast
next
  assume "cv_reachable s"
  then have "cv_inv s" by (rule cv_reachable_inv)
  then show "0 \<le> cv_count s" "cv_count s \<le> BUFFER_SIZE"
    by (simp_all add: cv_inv_def)
next
  assume "sem_reachable t"
  then have "sem_inv t" by (rule sem_reachable_inv)
  then show "int (sem_full t) \<le> BUFFER_SIZE" "int (sem_empty t) + int (sem_full t) = BUFFER_SIZE"
    by (simp_all add: sem_inv_def)
qed

text \<open>
  After five puts the buffer is full and a sixth attempt blocks: the bound is reached
  and not exceeded.
\<close>

theorem capacity_bound_witness:
  "cv_reachable \<lparr>cv_buffer = [1, 2, 3, 4, 5], cv_count = 5, cv_in = 0, cv_out = 0\<rparr> \<and>
   cv_count \<lparr>cv_buffer = [1, 2, 3, 4, 5], cv_count = 5, cv_in = 0, cv_out = 0\<rparr> \<le> BUFFER_SIZE \<and>
   sem_reachable \<lparr>sem_buffer = [1, 2, 3, 4, 5], sem_in = 0, sem_out = 0,
                   sem_empty = 0, sem_full = 5, sem_mutex = 1\<rparr> \<and>
   int (sem_full \<lparr>sem_buffer = [1, 2, 3, 4, 5], sem_in = 0, sem_out = 0,
                   sem_empty = 0, sem_full = 5, sem_mutex = 1\<rparr>) \<le> BUFFER_SIZE"
proof -
  have r1: "cv_reachable \<lparr>cv_buffer = [1, 2, 3, 4, 5], cv_count = 5, cv_in = 0, cv_out = 0\<rparr>"
    using cv_run_reachable [OF cv_start_reachable cv_full_state] by simp
  have r2: "sem_reachable \<lparr>sem_buffer = [1, 2, 3, 4, 5], sem_in = 0, sem_out = 0,
                   sem_empty = 0, sem_full = 5, sem_mutex = 1\<rparr>"
    by (rule sem_full_reachable)
  from r1 r2
    capacity_bound [of "\<lparr>cv_buffer = [1, 2, 3, 4, 5], cv_count = 5, cv_in = 0, cv_out = 0\<rparr>"
      "\<lparr>sem_buffer = [1, 2, 3, 4, 5], sem_in = 0, sem_out = 0,
                   sem_empty = 0, sem_full = 5, sem_mutex = 1\<rparr>"]
  show ?thesis by simp
qed

section \<open>C5: the wait loops recheck their predicate\<close>

text \<open>
  C5. Let a producer or a consumer hold the mutex in a reachable state and then be woken
  any number of times, each time finding some reachable state (whatever the other threads
  made of it in between, and whether or not the wake was meant for it). The thread tests
  its predicate on entry and again after every wake: the producer leaves its wait loop at
  the first of these states with \<open>count \<noteq> BUFFER_SIZE\<close>, the consumer at the first with
  \<open>count \<noteq> 0\<close>, and \<open>waiter_correct\<close> at the first with \<open>ready\<close> non-zero; later
  states are not looked at. So a producer that leaves the loop does so in one of the states
  it found, and there \<open>count < BUFFER_SIZE\<close>; a consumer that leaves it does so with
  \<open>count > 0\<close>. A thread that finds the predicate false at every wake is still waiting:
  no wake alone lets it through.
\<close>

theorem recheck_loop_sound:
  assumes "\<forall>q \<in> set (s # wakes). cv_reachable q"
  shows "cv_wait_not_full s wakes = find (\<lambda>q. cv_count q \<noteq> BUFFER_SIZE) (s # wakes)
    \<and> cv_wait_not_empty s wakes = find (\<lambda>q. cv_count q \<noteq> 0) (s # wakes)
    \<and> waiter_correct r rs = find (\<lambda>q. q \<noteq> 0) (r # rs)
    \<and> (cv_wait_not_full s wakes = Some s' \<longrightarrow> s' \<in> set (s # wakes) \<and> cv_count s' < BUFFER_SIZE)
    \<and> (cv_wait_not_empty s wakes = Some s'' \<longrightarrow> s'' \<in> set (s # wakes) \<and> 0 < cv_count s'')
    \<and> ((\<forall>q \<in> set (s # wakes). cv_count q = BUFFER_SIZE) \<longrightarrow> cv_wait_not_full s wakes = None)
    \<and> ((\<forall>q \<in> set (s # wakes). cv_count q = 0) \<longrightarrow> cv_wait_not_empty s wakes = None)
    \<and> (waiter_correct r rs = Some r' \<longrightarrow> r' \<noteq> 0)
    \<and> ((\<forall>q \<in> set (r # rs). q = 0) \<longrightarrow> waiter_correct r rs = None)"
proof (intro conjI impI)
  show "cv_wait_not_full s wakes = find (\<lambda>q. cv_count q \<noteq> BUFFER_SIZE) (s # wakes)"
    by (rule cv_wait_not_full_find)
  show "cv_wait_not_empty s wakes = find (\<lambda>q. cv_count q \<noteq> 0) (s # wakes)"
    by (rule cv_wait_not_empty_find)
  show "waiter_correct r rs = find (\<lambda>q. q \<noteq> 0) (r # rs)"
    by (rule waiter_correct_find)
next
  assume w: "cv_wait_not_full s wakes = Some s'"
  then show "s' \<in> set (s # wakes)"
    by (blast dest: cv_wait_not_full_Some)
  with assms have "cv_inv s'"
    by (blast intro: cv_reachable_inv)
  moreover from w have "cv_count s' \<noteq> BUFFER_SIZE"
    by (blast dest: cv_wait_not_full_Some)
  ultimately show "cv_count s' < BUFFER_SIZE"
    by (simp add: cv_inv_def)
next
  assume w: "cv_wait_not_empty s wakes = Some s''"
  then show "s'' \<in> set (s # wakes)"
    by (blast dest: cv_wait_not_empty_Some)
  with assms have "cv_inv s''"
    by (blast intro: cv_reachable_inv)
  moreover from w have "cv_count s'' \<noteq> 0"
    by (blast dest: cv_wait_not_empty_Some)
  ultimately show "0 < cv_count s''"
    by (simp add: cv_inv_def)
next
  assume "\<forall>q \<in> set (s # wakes). cv_count q = BUFFER_SIZE"
  then show "cv_wait_not_full s wakes = None"
    by (simp only: cv_wait_not_full_None)
next
  assume "\<forall>q \<in> set (s # wakes). cv_count q = 0"
  then show "cv_wait_not_empty s wakes = None"
    by (simp only: cv_wait_not_empty_None)
next
  assume "waiter_correct r rs = Some r'"
  then show "r' \<noteq> 0"
    by (rule waiter_correct_Some)
next
  assume "\<forall>q \<in> set (r # rs). q = 0"
  then show "waiter_correct r rs = None"
    by (simp only: waiter_correct_None)
qed

text \<open>
  A producer finds the buffer full, is woken while it is still full (a wake that does not
  satisfy its predicate) and a second time after a take: it leaves the loop there, with
  \<open>count = 4\<close>, and not at the later wakes. A consumer finds the buffer empty, is woken
  while it is still empty and a second time after a put: it leaves the loop there, with
  \<open>count = 1\<close>; woken only in the empty state it is still waiting. \<open>waiter_correct\<close>
  goes on at the second wake, when \<open>ready\<close> is 1.
\<close>

theorem recheck_loop_sound_witness:
  "cv_reachable cv_init \<and>
   cv_reachable \<lparr>cv_buffer = [1, 0, 0, 0, 0], cv_count = 1, cv_in = 1, cv_out = 0\<rparr> \<and>
   cv_reachable \<lparr>cv_buffer = [1, 2, 3, 4, 5], cv_count = 5, cv_in = 0, cv_out = 0\<rparr> \<and>
   cv_reachable \<lparr>cv_buffer = [1, 2, 3, 4, 5], cv_count = 4, cv_in = 0, cv_out = 1\<rparr> \<and>
   cv_wait_not_full \<lparr>cv_buffer = [1, 2, 3, 4, 5], cv_count = 5, cv_in = 0, cv_out = 0\<rparr>
     [\<lparr>cv_buffer = [1, 2, 3, 4, 5], cv_count = 5, cv_in = 0, cv_out = 0\<rparr>,
      \<lparr>cv_buffer = [1, 2, 3, 4, 5], cv_count = 4, cv_in = 0, cv_out = 1\<rparr>,
      \<lparr>cv_buffer = [1, 2, 3, 4, 5], cv_count = 5, cv_in = 0, cv_out = 0\<rparr>,
      \<lparr>cv_buffer = [1, 0, 0, 0, 0], cv_count = 1, cv_in = 1, cv_out = 0\<rparr>]
     = Some \<lparr>cv_buffer = [1, 2, 3, 4, 5], cv_count = 4, cv_in = 0, cv_out = 1\<rparr> \<and>
   cv_count \<lparr>cv_buffer = [1, 2, 3, 4, 5], cv_count = 4, cv_in = 0, cv_out = 1\<rparr> < BUFFER_SIZE \<and>
   cv_wait_not_empty cv_init
     [cv_init,
      \<lparr>cv_buffer = [1, 0, 0, 0, 0], cv_count = 1, cv_in = 1, cv_out = 0\<rparr>,
      cv_init,
      \<lparr>cv_buffer = [1, 2, 3, 4, 5], cv_count = 5, cv_in = 0, cv_out = 0\<rparr>]
     = Some \<lparr>cv_buffer = [1, 0, 0, 0, 0], cv_count = 1, cv_in = 1, cv_out = 0\<rparr> \<and>
   0 < cv_count \<lparr>cv_buffer = [1, 0, 0, 0, 0], cv_count = 1, cv_in = 1, cv_out = 0\<rparr> \<and>
   cv_wait_not_empty cv_init [cv_init, cv_init] = None \<and>
   waiter_correct 0 [0, 1, 0, 2] = Some 1"
proof -
  let ?full = "\<lparr>cv_buffer = [1, 2, 3, 4, 5], cv_count = 5, cv_in = 0, cv_out = 0\<rparr>"
  let ?four = "\<lparr>cv_buffer = [1, 2, 3, 4, 5], cv_count = 4, cv_in = 0, cv_out = 1\<rparr>"
  let ?one = "\<lparr>cv_buffer = [1, 0, 0, 0, 0], cv_count = 1, cv_in = 1, cv_out = 0\<rparr>"
  have full: "cv_reachable ?full"
    using cv_run_reachable [OF cv_start_reachable cv_full_state] by simp
  have "cv_consumer_iter ?full [] = Returns (?four, 1)"
    by code_simp
  with full have four: "cv_reachable ?four"
    by (rule cv_reach_take)
  have "cv_producer_iter cv_init [] 1 = Returns ?one"
    by code_simp
  with cv_reach_init have one: "cv_reachable ?one"
    by (rule cv_reach_put)
  have reach: "\<forall>q \<in> set (?full # [?full, ?four, ?full, ?one]). cv_reachable q"
    using full four one by simp
  have reach': "\<forall>q \<in> set (cv_init # [cv_init, ?one, cv_init, ?full]). cv_reachable q"
    using full one cv_reach_init by simp
  have reach'': "\<forall>q \<in> set (cv_init # [cv_init, cv_init]). cv_reachable q"
    using cv_reach_init by simp
  from recheck_loop_sound [OF reach, of 0 "[0, 1, 0, 2]" ?four ?four 1]
  have wait: "cv_wait_not_full ?full [?full, ?four, ?full, ?one] = Some ?four"
    and correct: "waiter_correct 0 [0, 1, 0, 2] = Some 1"
    by (simp_all add: BUFFER_SIZE_def)
  from recheck_loop_sound [OF reach, of 0 "[0, 1, 0, 2]" ?four ?four 1] wait
  have lt: "cv_count ?four < BUFFER_SIZE"
    by blast
  from recheck_loop_sound [OF reach', of 0 "[]" ?one ?one 1]
  have wait': "cv_wait_not_empty cv_init [cv_init, ?one, cv_init, ?full] = Some ?one"
    by (simp add: cv_init_eq)
  from recheck_loop_sound [OF reach', of 0 "[]" ?one ?one 1] wait'
  have gt: "0 < cv_count ?one"
    by blast
  from recheck_loop_sound [OF reach'', of 0 "[]" ?one ?one 1]
  have none: "cv_wait_not_empty cv_init [cv_init, cv_init] = None"
    by (simp add: cv_init_eq)
  from full four one cv_reach_init wait correct lt wait' gt none show ?thesis
    by simp
qed

section \<open>C7: the two programs implement the same queue\<close>




section \<open>C9: the cursors stay inside the buffer\<close>

text \<open>
  C9. In every reachable state of either program the buffer has \<open>BUFFER_SIZE\<close> slots and
  both cursors lie in \<open>[0, BUFFER_SIZE)\<close>; a put advances \<open>in\<close> and a take advances \<open>out\<close>
  by one modulo \<open>BUFFER_SIZE\<close>, leaving the other cursor alone; and no put or take from
  such a state accesses the buffer out of bounds (nor runs into any other undefined
  behaviour). The same holds in the middle of the operations: every interleaving of the
  statements of the four threads of the semaphore program runs without an access out of
  bounds and leaves the cursors in \<open>[0, BUFFER_SIZE)\<close>.
\<close>

theorem cursor_range:
  "(cv_reachable s \<longrightarrow>
      int (length (cv_buffer s)) = BUFFER_SIZE \<and>
      0 \<le> cv_in s \<and> cv_in s < BUFFER_SIZE \<and> 0 \<le> cv_out s \<and> cv_out s < BUFFER_SIZE \<and>
      cv_producer_iter s [] item \<noteq> Faults f \<and>
      (cv_producer_iter s [] item = Returns s' \<longrightarrow>
         cv_in s' = (cv_in s + 1) mod BUFFER_SIZE \<and> cv_out s' = cv_out s) \<and>
      cv_consumer_iter s [] \<noteq> Faults f \<and>
      (cv_consumer_iter s [] = Returns (s', x) \<longrightarrow>
         cv_out s' = (cv_out s + 1) mod BUFFER_SIZE \<and> cv_in s' = cv_in s)) \<and>
   (sem_reachable t \<longrightarrow>
      int (length (sem_buffer t)) = BUFFER_SIZE \<and>
      0 \<le> sem_in t \<and> sem_in t < BUFFER_SIZE \<and> 0 \<le> sem_out t \<and> sem_out t < BUFFER_SIZE \<and>
      sem_producer_iter t item \<noteq> Faults f \<and>
      (sem_producer_iter t item = Returns t' \<longrightarrow>
         sem_in t' = (sem_in t + 1) mod BUFFER_SIZE \<and> sem_out t' = sem_out t) \<and>
      sem_consumer_iter t \<noteq> Faults f \<and>
      (sem_consumer_iter t = Returns (t', x) \<longrightarrow>
         sem_out t' = (sem_out t + 1) mod BUFFER_SIZE \<and> sem_in t' = sem_in t)) \<and>
   (\<exists>p. sem_interleave sched sem_main_start = Inr p \<and>
      int (length (sem_buffer (prog_shared p))) = BUFFER_SIZE \<and>
      0 \<le> sem_in (prog_shared p) \<and> sem_in (prog_shared p) < BUFFER_SIZE \<and>
      0 \<le> sem_out (prog_shared p) \<and> sem_out (prog_shared p) < BUFFER_SIZE)"
proof (intro conjI impI)
  from prog_inv_start obtain p where p: "sem_interleave sched sem_main_start = Inr p" "prog_inv p"
    using sem_interleave_inv by blast
  from p(2) have "int (length (sem_buffer (prog_shared p))) = BUFFER_SIZE"
    by (simp add: prog_inv_def)
  with p(1) prog_inv_cursors [OF p(2)]
  show "\<exists>p. sem_interleave sched sem_main_start = Inr p \<and>
      int (length (sem_buffer (prog_shared p))) = BUFFER_SIZE \<and>
      0 \<le> sem_in (prog_shared p) \<and> sem_in (prog_shared p) < BUFFER_SIZE \<and>
      0 \<le> sem_out (prog_shared p) \<and> sem_out (prog_shared p) < BUFFER_SIZE"
    by auto
next
  assume "cv_reachable s"
  then have inv: "cv_inv s"
    by (rule cv_reachable_inv)
  then show "int (length (cv_buffer s)) = BUFFER_SIZE" "0 \<le> cv_in s" "cv_in s < BUFFER_SIZE"
      "0 \<le> cv_out s" "cv_out s < BUFFER_SIZE"
    by (simp_all add: cv_inv_def)
  from inv show "cv_producer_iter s [] item \<noteq> Faults f"
    by (simp add: cv_producer_iter_nil cv_put_Returns)
  from inv show "cv_consumer_iter s [] \<noteq> Faults f"
    by (simp add: cv_consumer_iter_nil cv_take_Returns)
  {
    assume "cv_producer_iter s [] item = Returns s'"
    with inv show "cv_in s' = (cv_in s + 1) mod BUFFER_SIZE" "cv_out s' = cv_out s"
      by (auto simp: cv_producer_iter_nil cv_put_Returns split: if_splits)
  }
  {
    assume "cv_consumer_iter s [] = Returns (s', x)"
    with inv show "cv_out s' = (cv_out s + 1) mod BUFFER_SIZE" "cv_in s' = cv_in s"
      by (auto simp: cv_consumer_iter_nil cv_take_Returns split: if_splits)
  }
next
  assume "sem_reachable t"
  then have inv: "sem_inv t"
    by (rule sem_reachable_inv)
  then show "int (length (sem_buffer t)) = BUFFER_SIZE" "0 \<le> sem_in t" "sem_in t < BUFFER_SIZE"
      "0 \<le> sem_out t" "sem_out t < BUFFER_SIZE"
    by (simp_all add: sem_inv_def)
  from inv show "sem_producer_iter t item \<noteq> Faults f"
    by (simp add: sem_producer_iter_inv)
  from inv show "sem_consumer_iter t \<noteq> Faults f"
    by (simp add: sem_consumer_iter_inv)
  {
    assume "sem_producer_iter t item = Returns t'"
    with inv show "sem_in t' = (sem_in t + 1) mod BUFFER_SIZE" "sem_out t' = sem_out t"
      by (auto simp: sem_producer_iter_inv split: if_splits)
  }
  {
    assume "sem_consumer_iter t = Returns (t', x)"
    with inv show "sem_out t' = (sem_out t + 1) mod BUFFER_SIZE" "sem_in t' = sem_in t"
      by (auto simp: sem_consumer_iter_inv split: if_splits)
  }
qed

text \<open>
  With \<open>in\<close> at the last slot, a put wraps it around to 0; with \<open>out\<close> at slot 3, a take
  moves it to the last slot.
\<close>

theorem cursor_range_witness:
  "cv_reachable \<lparr>cv_buffer = [1, 2, 3, 4, 0], cv_count = 0, cv_in = 4, cv_out = 4\<rparr> \<and>
   cv_producer_iter \<lparr>cv_buffer = [1, 2, 3, 4, 0], cv_count = 0, cv_in = 4, cv_out = 4\<rparr> [] 5 =
     Returns \<lparr>cv_buffer = [1, 2, 3, 4, 5], cv_count = 1, cv_in = 0, cv_out = 4\<rparr> \<and>
   (0::int) = (4 + 1) mod BUFFER_SIZE \<and>
   sem_reachable \<lparr>sem_buffer = [1, 2, 3, 4, 0], sem_in = 4, sem_out = 3,
                   sem_empty = 4, sem_full = 1, sem_mutex = 1\<rparr> \<and>
   sem_consumer_iter \<lparr>sem_buffer = [1, 2, 3, 4, 0], sem_in = 4, sem_out = 3,
                       sem_empty = 4, sem_full = 1, sem_mutex = 1\<rparr> =
     Returns (\<lparr>sem_buffer = [1, 2, 3, 4, 0], sem_in = 4, sem_out = 4,
                sem_empty = 5, sem_full = 0, sem_mutex = 1\<rparr>, 4) \<and>
   (4::int) = (3 + 1) mod BUFFER_SIZE"
proof -
  let ?s = "\<lparr>cv_buffer = [1, 2, 3, 4, 0], cv_count = 0, cv_in = 4, cv_out = 4\<rparr>"
  let ?s' = "\<lparr>cv_buffer = [1, 2, 3, 4, 5], cv_count = 1, cv_in = 0, cv_out = 4\<rparr>"
  let ?t = "\<lparr>sem_buffer = [1, 2, 3, 4, 0], sem_in = 4, sem_out = 3,
              sem_empty = 4, sem_full = 1, sem_mutex = 1\<rparr>"
  let ?t' = "\<lparr>sem_buffer = [1, 2, 3, 4, 0], sem_in = 4, sem_out = 4,
               sem_empty = 5, sem_full = 0, sem_mutex = 1\<rparr>"
  have rs: "cv_reachable ?s"
    using cv_run_reachable [OF cv_start_reachable cv_wrap_state] by simp
  have rt: "sem_reachable ?t"
    by (rule sem_wrap_reachable)
  have put: "cv_producer_iter ?s [] 5 = Returns ?s'"
    by code_simp
  have take: "sem_consumer_iter ?t = Returns (?t', 4)"
    by code_simp
  from cursor_range [of ?s 5 _ ?s' _ ?t ?t'] rs rt put
  have "cv_in ?s' = (cv_in ?s + 1) mod BUFFER_SIZE"
    by blast
  moreover from cursor_range [of ?s 5 _ ?s' 4 ?t ?t'] rs rt take
  have "sem_out ?t' = (sem_out ?t + 1) mod BUFFER_SIZE"
    by blast
  ultimately show ?thesis
    using rs rt put take by simp
qed

section \<open>C10: the semaphore program moves 14 items\<close>

text \<open>
  C10. \<open>NUM_ITEMS / 2\<close> is 7 in the semaphore program (15 / 2 truncates). Under every
  interleaving of the statements of the four threads the run stays in defined behaviour,
  no thread makes more than 7 iterations, and at most 14 items are put. When no thread
  can go on, every thread has returned after exactly 7 iterations (so none is left
  blocked), exactly 14 items have been put and exactly 14 taken, which is
  \<open>NUM_ITEMS - 1\<close>. And the program does get there: after any interleaving, letting the
  four threads take turns for 168 more rounds leaves every thread returned, with 14 items
  put and 14 taken.
\<close>

theorem sem_item_counts:
  "sem_NUM_ITEMS sdiv 2 = 7 \<and>
   (\<exists>p. sem_interleave sched sem_main_start = Inr p \<and>
      (\<forall>th. 0 \<le> prog_i p th \<and> prog_i p th \<le> 7) \<and>
      length (prog_consumed p) \<le> length (prog_produced p) \<and>
      length (prog_produced p) \<le> 14 \<and>
      (sem_halted p \<longrightarrow>
         (\<forall>th. returned p th \<and> prog_i p th = 7) \<and>
         length (prog_produced p) = 14 \<and> length (prog_consumed p) = 14 \<and>
         int (length (prog_produced p)) = sem_NUM_ITEMS - 1)) \<and>
   (\<exists>q. sem_interleave (sched @ concat (replicate 168 sem_threads)) sem_main_start = Inr q \<and>
      sem_halted q \<and> (\<forall>th. prog_i q th = 7) \<and>
      length (prog_produced q) = 14 \<and> length (prog_consumed q) = 14)"
proof (intro conjI)
  show "sem_NUM_ITEMS sdiv 2 = 7"
    by (rule sem_iterations)
next
  from prog_inv_start obtain p where run: "sem_interleave sched sem_main_start = Inr p"
    and inv: "prog_inv p"
    using sem_interleave_inv by blast
  from round_robin_terminates [OF inv]
  obtain q where q: "sem_interleave (concat (replicate 168 sem_threads)) p = Inr q"
      "prog_inv q" "sem_halted q"
    by blast
  from run q(1) have "sem_interleave (sched @ concat (replicate 168 sem_threads)) sem_main_start = Inr q"
    by (simp add: sem_interleave_append)
  moreover from q(2,3) have idle: "prog_pc q th = WaitSlot \<and> prog_i q th = 7" for th
    by (rule halted_returned)
  moreover from q(2) idle have "int (length (prog_produced q)) = 14"
      "int (length (prog_consumed q)) = 14"
    by (simp_all add: prog_inv_def writes_done_def reads_done_def)
  ultimately show "\<exists>q. sem_interleave (sched @ concat (replicate 168 sem_threads)) sem_main_start = Inr q \<and>
      sem_halted q \<and> (\<forall>th. prog_i q th = 7) \<and>
      length (prog_produced q) = 14 \<and> length (prog_consumed q) = 14"
    using q(3) by auto
next
  from prog_inv_start obtain p where run: "sem_interleave sched sem_main_start = Inr p"
    and inv: "prog_inv p"
    using sem_interleave_inv by blast
  have bounds: "0 \<le> prog_i p th \<and> prog_i p th \<le> 7" for th
    using inv by (cases th) (simp_all add: prog_inv_def counter_ok_def sem_iterations)
  from prog_inv_logs [OF inv] have logs: "length (prog_consumed p) \<le> length (prog_produced p)"
      "length (prog_produced p) \<le> 14"
    by simp_all
  have fin: "(\<forall>th. returned p th \<and> prog_i p th = 7) \<and>
         length (prog_produced p) = 14 \<and> length (prog_consumed p) = 14 \<and>
         int (length (prog_produced p)) = sem_NUM_ITEMS - 1" if "sem_halted p"
  proof -
    from inv that have idle: "prog_pc p th = WaitSlot \<and> prog_i p th = 7" for th
      by (rule halted_returned)
    then have "returned p th \<and> prog_i p th = 7" for th
      by (simp add: returned_def sem_iterations)
    moreover from inv idle have "int (length (prog_produced p)) = 14"
        "int (length (prog_consumed p)) = 14"
      by (simp_all add: prog_inv_def writes_done_def reads_done_def)
    ultimately show ?thesis
      by (simp add: sem_NUM_ITEMS_def)
  qed
  from run bounds logs fin
  show "\<exists>p. sem_interleave sched sem_main_start = Inr p \<and>
      (\<forall>th. 0 \<le> prog_i p th \<and> prog_i p th \<le> 7) \<and>
      length (prog_consumed p) \<le> length (prog_produced p) \<and>
      length (prog_produced p) \<le> 14 \<and>
      (sem_halted p \<longrightarrow>
         (\<forall>th. returned p th \<and> prog_i p th = 7) \<and>
         length (prog_produced p) = 14 \<and> length (prog_consumed p) = 14 \<and>
         int (length (prog_produced p)) = sem_NUM_ITEMS - 1)"
    by blast
qed

text \<open>
  The four threads taking turns, one statement each, a hundred times over: afterwards no
  thread can go on, and the 14 items 100..106 and 200..206 have been put and taken.
\<close>

theorem sem_item_counts_witness:
  "\<exists>p. sem_interleave (concat (replicate 100 [Prod1, Prod2, Cons1, Cons2])) sem_main_start = Inr p \<and>
     sem_halted p \<and> (\<forall>th. prog_i p th = 7) \<and>
     length (prog_produced p) = 14 \<and> length (prog_consumed p) = 14 \<and>
     prog_produced p = [100, 200, 101, 201, 102, 202, 103, 203, 104, 204, 105, 205, 106, 206]"
proof -
  let ?rr = "concat (replicate 100 [Prod1, Prod2, Cons1, Cons2])"
  from sem_item_counts [of ?rr] obtain p where run: "sem_interleave ?rr sem_main_start = Inr p"
    and fin: "sem_halted p \<longrightarrow>
         (\<forall>th. returned p th \<and> prog_i p th = 7) \<and>
         length (prog_produced p) = 14 \<and> length (prog_consumed p) = 14 \<and>
         int (length (prog_produced p)) = sem_NUM_ITEMS - 1"
    by blast
  from round_robin_halts run have halted: "sem_halted p"
    and items: "prog_produced p = [100, 200, 101, 201, 102, 202, 103, 203, 104, 204, 105, 205, 106, 206]"
    by (simp_all only: sum.case)
  from halted fin run items show ?thesis
    by blast
qed

end
